theory Spec2Isabelle
  imports Complex_Main "HOL-Library.Sublist"
begin

section \<open>JavaScript numbers\<close>

text \<open>
  The numbers of the two scripts are IEEE 754 binary64 values. A finite double is a real
  number that rounding to binary64 leaves unchanged; the type \<open>double\<close> holds exactly
  those. A \<open>jsnum\<close> is a finite double, one of the two infinities or \<open>NaN\<close>. Every
  arithmetic operation computes the exact real result and rounds it to the nearest
  double, a tie going to the even significand (\<open>rne\<close>); a rounded result of magnitude
  \<open>2^1024\<close> or more is an infinity.

  The sign of zero is not modelled: \<open>-0\<close> and \<open>0\<close> are one value. The two compare equal
  in JavaScript; they differ only in the sign of an infinite quotient, which here is the
  sign a positive zero gives.
\<close>

text \<open>
  \<open>ilog2 x\<close> is the exponent of a positive \<open>x\<close>: the integer \<open>e\<close> with
  \<open>2^e \<le> x < 2^(e + 1)\<close>.
\<close>

function ilog2 :: "real \<Rightarrow> int" where
  "ilog2 x =
     (if 2 \<le> x then ilog2 (x / 2) + 1
      else if 0 < x \<and> x < 1 then ilog2 (x * 2) - 1
      else 0)"
  by pat_completeness auto
termination
proof (relation "measure (\<lambda>x. if 2 \<le> x then nat \<lfloor>log 2 x\<rfloor>
    else if 0 < x \<and> x < 1 then nat \<lceil>- log 2 x\<rceil> else 0)")
  show "wf (measure (\<lambda>x. if 2 \<le> x then nat \<lfloor>log 2 x\<rfloor>
    else if 0 < x \<and> x < 1 then nat \<lceil>- log 2 x\<rceil> else 0))"
    by simp
next
  fix x :: real
  assume x: "2 \<le> x"
  have l: "log 2 (x / 2) = log 2 x - 1" using x by (simp add: log_divide)
  have "1 \<le> log 2 x" using x by (simp add: le_log_iff)
  then have p: "1 \<le> \<lfloor>log 2 x\<rfloor>" by simp
  show "(x / 2, x) \<in> measure (\<lambda>x. if 2 \<le> x then nat \<lfloor>log 2 x\<rfloor>
      else if 0 < x \<and> x < 1 then nat \<lceil>- log 2 x\<rceil> else 0)"
    using x p by (auto simp add: l)
next
  fix x :: real
  assume x: "\<not> 2 \<le> x" "0 < x \<and> x < 1"
  have l: "log 2 (x * 2) = log 2 x + 1" using x by (simp add: log_mult)
  have "log 2 x < 0" using x by simp
  then have p: "1 \<le> \<lceil>- log 2 x\<rceil>" by (simp add: less_ceiling_iff)
  show "(x * 2, x) \<in> measure (\<lambda>x. if 2 \<le> x then nat \<lfloor>log 2 x\<rfloor>
      else if 0 < x \<and> x < 1 then nat \<lceil>- log 2 x\<rceil> else 0)"
    using x p by (auto simp add: l)
qed

declare ilog2.simps [simp del]

definition round_half_even :: "real \<Rightarrow> int" where
  \<comment> \<open>the nearest integer, a tie going to the even one\<close>
  "round_half_even y =
     (let f = \<lfloor>y\<rfloor>; d = y - of_int f
      in if d < 1 / 2 then f
         else if d > 1 / 2 then f + 1
         else if even f then f else f + 1)"

definition ulp_exp :: "real \<Rightarrow> int" where
  \<comment> \<open>the exponent of the last place: 53 significant bits, subnormal below \<open>2^-1022\<close>\<close>
  "ulp_exp x = max (ilog2 \<bar>x\<bar>) (- 1022) - 52"

definition rne :: "real \<Rightarrow> real" where
  \<comment> \<open>round to nearest, ties to even, with unbounded exponent upwards\<close>
  "rne x = of_int (round_half_even (x / 2 powi ulp_exp x)) * 2 powi ulp_exp x"

definition overflow_threshold :: real where
  \<comment> \<open>a result that rounds to this magnitude or beyond is infinite\<close>
  "overflow_threshold = 2 powi 1024"

typedef double = "{r::real. rne r = r \<and> \<bar>r\<bar> < overflow_threshold}"
  morphisms val Abs_double
proof
  show "0 \<in> {r::real. rne r = r \<and> \<bar>r\<bar> < overflow_threshold}"
    by (simp add: rne_def round_half_even_def overflow_threshold_def)
qed

datatype jsnum = Fin double | PosInf | NegInf | NaN

definition fl :: "real \<Rightarrow> jsnum" where
  \<comment> \<open>the double an exact result rounds to\<close>
  "fl x =
     (if overflow_threshold \<le> rne x then PosInf
      else if rne x \<le> - overflow_threshold then NegInf
      else Fin (Abs_double (rne x)))"

definition js :: "real \<Rightarrow> jsnum" where
  \<comment> \<open>a numeric literal of the source: the double nearest to the decimal\<close>
  "js r = fl r"

definition dbl :: "real \<Rightarrow> double" where
  \<comment> \<open>the finite double nearest to a decimal, as \<open>parseFloat\<close> reads it\<close>
  "dbl r = (case fl r of Fin d \<Rightarrow> d | _ \<Rightarrow> Abs_double 0)"

fun js_add :: "jsnum \<Rightarrow> jsnum \<Rightarrow> jsnum" where
  "js_add NaN y = NaN"
| "js_add x NaN = NaN"
| "js_add PosInf NegInf = NaN"
| "js_add NegInf PosInf = NaN"
| "js_add PosInf y = PosInf"
| "js_add x PosInf = PosInf"
| "js_add NegInf y = NegInf"
| "js_add x NegInf = NegInf"
| "js_add (Fin a) (Fin b) = fl (val a + val b)"

fun js_sub :: "jsnum \<Rightarrow> jsnum \<Rightarrow> jsnum" where
  "js_sub NaN y = NaN"
| "js_sub x NaN = NaN"
| "js_sub PosInf PosInf = NaN"
| "js_sub NegInf NegInf = NaN"
| "js_sub PosInf y = PosInf"
| "js_sub x NegInf = PosInf"
| "js_sub NegInf y = NegInf"
| "js_sub x PosInf = NegInf"
| "js_sub (Fin a) (Fin b) = fl (val a - val b)"

definition sign_inf :: "bool \<Rightarrow> jsnum" where
  "sign_inf positive = (if positive then PosInf else NegInf)"

fun js_mul :: "jsnum \<Rightarrow> jsnum \<Rightarrow> jsnum" where
  "js_mul NaN y = NaN"
| "js_mul x NaN = NaN"
| "js_mul PosInf PosInf = PosInf"
| "js_mul PosInf NegInf = NegInf"
| "js_mul NegInf PosInf = NegInf"
| "js_mul NegInf NegInf = PosInf"
| "js_mul PosInf (Fin b) = (if val b = 0 then NaN else sign_inf (0 < val b))"
| "js_mul NegInf (Fin b) = (if val b = 0 then NaN else sign_inf (val b < 0))"
| "js_mul (Fin a) PosInf = (if val a = 0 then NaN else sign_inf (0 < val a))"
| "js_mul (Fin a) NegInf = (if val a = 0 then NaN else sign_inf (val a < 0))"
| "js_mul (Fin a) (Fin b) = fl (val a * val b)"

fun js_div :: "jsnum \<Rightarrow> jsnum \<Rightarrow> jsnum" where
  "js_div NaN y = NaN"
| "js_div x NaN = NaN"
| "js_div PosInf (Fin b) = sign_inf (0 \<le> val b)"
| "js_div NegInf (Fin b) = sign_inf (val b < 0)"
| "js_div PosInf y = NaN"
| "js_div NegInf y = NaN"
| "js_div (Fin a) (Fin b) =
     (if val b \<noteq> 0 then fl (val a / val b)
      else if 0 < val a then PosInf
      else if val a < 0 then NegInf
      else NaN)"
| "js_div (Fin a) y = fl 0"

fun js_gt :: "jsnum \<Rightarrow> jsnum \<Rightarrow> bool" where
  "js_gt NaN y = False"
| "js_gt x NaN = False"
| "js_gt NegInf y = False"
| "js_gt x PosInf = False"
| "js_gt PosInf y = True"
| "js_gt x NegInf = True"
| "js_gt (Fin a) (Fin b) = (val a > val b)"

definition js_lt :: "jsnum \<Rightarrow> jsnum \<Rightarrow> bool" where
  "js_lt x y = js_gt y x"

fun js_eq :: "jsnum \<Rightarrow> jsnum \<Rightarrow> bool" where
  \<comment> \<open>\<open>x === y\<close> on two numbers\<close>
  "js_eq (Fin a) (Fin b) = (val a = val b)"
| "js_eq PosInf PosInf = True"
| "js_eq NegInf NegInf = True"
| "js_eq x y = False"

fun Math_abs :: "jsnum \<Rightarrow> jsnum" where
  "Math_abs (Fin a) = fl \<bar>val a\<bar>"
| "Math_abs PosInf = PosInf"
| "Math_abs NegInf = PosInf"
| "Math_abs NaN = NaN"

fun Math_min :: "jsnum \<Rightarrow> jsnum \<Rightarrow> jsnum" where
  "Math_min NaN y = NaN"
| "Math_min x NaN = NaN"
| "Math_min x y = (if js_lt y x then y else x)"

text \<open>
  \<open>Math.round\<close>: the nearest integer, a tie going up. The integer is a double (a double
  of magnitude \<open>2^52\<close> or more is an integer already), so the rounding of \<open>fl\<close> changes
  nothing here.
\<close>

fun Math_round :: "jsnum \<Rightarrow> jsnum" where
  "Math_round (Fin a) = fl (of_int \<lfloor>val a + 1 / 2\<rfloor>)"
| "Math_round x = x"

definition in_range :: "real \<Rightarrow> real \<Rightarrow> jsnum \<Rightarrow> bool" where
  \<comment> \<open>a finite number of the closed interval from \<open>lo\<close> to \<open>hi\<close>\<close>
  "in_range lo hi x = (case x of Fin d \<Rightarrow> lo \<le> val d \<and> val d \<le> hi | _ \<Rightarrow> False)"

section \<open>BTC monitor: data\<close>

text \<open>
  A candle as \<open>fetchKlineData\<close> builds it from the exchange's strings: the five prices
  and volumes are finite doubles.
\<close>

record candle =
  timestamp :: int
  open_c :: double
  high :: double
  low :: double
  close :: double
  volume :: double

datatype trend = Bullish | Bearish | Sideways | Unknown

text \<open>
  The object returned by \<open>analyzeKline\<close>. The early return builds an object with the three
  fields \<open>trend\<close>, \<open>strength\<close> and \<open>rsi\<close> only, so the other six are optional: \<open>None\<close>
  is the absent property (\<open>undefined\<close> when read).
\<close>

record indicator_result =
  trend :: trend
  strength :: jsnum
  ma5 :: "jsnum option"
  ma10 :: "jsnum option"
  priceChange :: "jsnum option"
  volumeSpike :: "bool option"
  currentVolume :: "jsnum option"
  avgVolume :: "jsnum option"
  rsi :: jsnum

record price_alerts =
  sharp_change_percent :: double
  volume_spike_multiplier :: double

record btc_config =
  binance_api :: string
  kline_timeframes :: "string list"
  price_alerts :: price_alerts

record price_data =
  price :: double
  change24h :: double
  volume24h :: double
  high24h :: double
  low24h :: double
  trades :: int

section \<open>BTC monitor: indicator engine\<close>

definition slice_last :: "nat \<Rightarrow> 'a list \<Rightarrow> 'a list" where
  \<comment> \<open>\<open>xs.slice(-n)\<close>; \<open>slice(-0)\<close> is \<open>slice(0)\<close>, the whole array\<close>
  "slice_last n xs = (if n = 0 then xs else drop (length xs - n) xs)"

definition sum_close :: "candle list \<Rightarrow> jsnum" where
  \<comment> \<open>\<open>ks.reduce((sum, k) => sum + k.close, 0)\<close>\<close>
  "sum_close ks = foldl (\<lambda>sum k. js_add sum (Fin (close k))) (js 0) ks"

definition sum_volume :: "candle list \<Rightarrow> jsnum" where
  \<comment> \<open>\<open>ks.reduce((sum, k) => sum + k.volume, 0)\<close>\<close>
  "sum_volume ks = foldl (\<lambda>sum k. js_add sum (Fin (volume k))) (js 0) ks"

text \<open>
  The loop of \<open>calculateRSI\<close>, \<open>for (let i = 1; i < period + 1; i++)\<close>: the second argument
  is \<open>i\<close>, the third the number of iterations left, the pair is \<open>(gains, losses)\<close>. The
  caller's length check keeps \<open>i\<close> and \<open>i - 1\<close> in range.
\<close>

fun rsi_loop :: "candle list \<Rightarrow> nat \<Rightarrow> nat \<Rightarrow> jsnum \<times> jsnum \<Rightarrow> jsnum \<times> jsnum" where
  "rsi_loop klines i 0 acc = acc"
| "rsi_loop klines i (Suc n) (gains, losses) =
     (let change = js_sub (Fin (close (klines ! i))) (Fin (close (klines ! (i - 1))))
      in rsi_loop klines (i + 1) n
           (if js_gt change (js 0) then (js_add gains change, losses)
            else (gains, js_add losses (Math_abs change))))"

definition calculateRSI :: "candle list \<Rightarrow> nat \<Rightarrow> jsnum" where
  "calculateRSI klines period =
     (if length klines < period + 1 then js 50
      else
        (let (gains, losses) = rsi_loop klines 1 period (js 0, js 0);
             avgGain = js_div gains (js (real period));
             avgLoss = js_div losses (js (real period))
         in if js_eq avgLoss (js 0) then js 100
            else
              (let rs = js_div avgGain avgLoss;
                   rsi = js_sub (js 100) (js_div (js 100) (js_add (js 1) rs))
               in js_div (Math_round (js_mul rsi (js 10))) (js 10))))"

definition unknown_result :: indicator_result where
  \<comment> \<open>\<open>{ trend: 'unknown', strength: 0, rsi: 50 }\<close>\<close>
  "unknown_result =
     \<lparr>trend = Unknown, strength = js 0, ma5 = None, ma10 = None, priceChange = None,
      volumeSpike = None, currentVolume = None, avgVolume = None, rsi = js 50\<rparr>"

text \<open>
  \<open>analyzeKline\<close>; the argument is \<open>None\<close> for a \<open>null\<close> or \<open>undefined\<close> array, the
  other case of the guard \<open>!klines\<close>. \<open>calculateRSI\<close> is called with its default period 14.
\<close>

definition analyzeKline :: "btc_config \<Rightarrow> candle list option \<Rightarrow> indicator_result" where
  "analyzeKline config klines_opt =
     (case klines_opt of
        None \<Rightarrow> unknown_result
      | Some klines \<Rightarrow>
          if length klines < 3 then unknown_result
          else
            (let recent = slice_last 10 klines;
                 current = recent ! (length recent - 1);
                 ma5_v = js_div (sum_close (slice_last 5 recent)) (js 5);
                 ma10_v = js_div (sum_close recent) (js 10);
                 priceChange_v =
                   js_mul
                     (js_div (js_sub (Fin (close current)) (Fin (close (recent ! 0))))
                        (Fin (close (recent ! 0))))
                     (js 100);
                 (trend_v, strength_v) =
                   (if js_gt ma5_v ma10_v \<and> js_gt (Fin (close current)) ma5_v
                    then (Bullish, Math_min (Math_abs priceChange_v) (js 100))
                    else if js_lt ma5_v ma10_v \<and> js_lt (Fin (close current)) ma5_v
                    then (Bearish, Math_min (Math_abs priceChange_v) (js 100))
                    else (Sideways, js 0));
                 avgVolume_v =
                   js_div (sum_volume (butlast recent)) (js (real (length recent - 1)));
                 volumeSpike_v =
                   js_gt (Fin (volume current))
                     (js_mul avgVolume_v (Fin (volume_spike_multiplier (price_alerts config))));
                 rsi_v = calculateRSI (slice_last 15 klines) 14
             in \<lparr>trend = trend_v,
                 strength = js_div (Math_round (js_mul strength_v (js 10))) (js 10),
                 ma5 = Some (js_div (Math_round (js_mul ma5_v (js 100))) (js 100)),
                 ma10 = Some (js_div (Math_round (js_mul ma10_v (js 100))) (js 100)),
                 priceChange =
                   Some (js_div (Math_round (js_mul priceChange_v (js 100))) (js 100)),
                 volumeSpike = Some volumeSpike_v,
                 currentVolume = Some (Math_round (Fin (volume current))),
                 avgVolume = Some (Math_round avgVolume_v),
                 rsi = rsi_v\<rparr>))"

section \<open>BTC monitor: signal aggregator\<close>

text \<open>
  The seven strings \<open>generateMarketSignals\<close> can push, one constructor each, in the order
  of the source. The volatility string is a template over \<open>priceData.change24h\<close> (its sign
  and \<open>toFixed(2)\<close>), which the constructor carries.
\<close>

datatype signal =
    MultiBullish
  | MultiBearish
  | MixedSignals
  | RsiOverbought
  | RsiOversold
  | HighVolatility double
  | UnusualVolume

definition truthy :: "bool option \<Rightarrow> bool" where
  \<comment> \<open>the truth value of a property that may be absent: \<open>undefined\<close> is falsy\<close>
  "truthy b = (case b of None \<Rightarrow> False | Some v \<Rightarrow> v)"

definition Object_values :: "('k \<times> 'v) list \<Rightarrow> 'v list" where
  \<comment> \<open>an object as its properties in insertion order\<close>
  "Object_values obj = map snd obj"

definition generateMarketSignals ::
  "price_data \<Rightarrow> (string \<times> indicator_result) list \<Rightarrow> signal list" where
  "generateMarketSignals priceData klineAnalysis =
     (let trends = map trend (Object_values klineAnalysis);
          bullishCount = length (filter (\<lambda>t. t = Bullish) trends);
          bearishCount = length (filter (\<lambda>t. t = Bearish) trends);
          signals1 =
            [if bullishCount \<ge> 3 then MultiBullish
             else if bearishCount \<ge> 3 then MultiBearish
             else MixedSignals];
          rsiValues = map rsi (Object_values klineAnalysis);
          avgRSI =
            js_div (foldl (\<lambda>sum r. js_add sum r) (js 0) rsiValues)
              (js (real (length rsiValues)));
          signals2 =
            signals1 @
            (if js_gt avgRSI (js 70) then [RsiOverbought]
             else if js_lt avgRSI (js 30) then [RsiOversold]
             else []);
          signals3 =
            signals2 @
            (if js_gt (Math_abs (Fin (change24h priceData))) (js 5)
             then [HighVolatility (change24h priceData)] else []);
          hasVolumeSpike = list_ex (\<lambda>a. truthy (volumeSpike a)) (Object_values klineAnalysis)
      in signals3 @ (if hasVolumeSpike then [UnusualVolume] else []))"

section \<open>Meme token hunter: chain and risk heuristics\<close>

text \<open>
  A text is a \<open>string\<close> whose characters are the code units of the JavaScript string;
  the model covers code units below 256. \<open>toLowerCase\<close> maps the letters \<open>A\<close> to
  \<open>Z\<close> and leaves every other character unchanged, which is all the ASCII keywords of the
  source can observe. \<open>str_includes s t\<close> is \<open>s.includes(t)\<close>.
\<close>

definition char_between :: "char \<Rightarrow> char \<Rightarrow> char \<Rightarrow> bool" where
  "char_between lo hi c = ((of_char lo :: nat) \<le> of_char c \<and> (of_char c :: nat) \<le> of_char hi)"

definition char_toLowerCase :: "char \<Rightarrow> char" where
  "char_toLowerCase c =
     (if char_between CHR ''A'' CHR ''Z'' c then char_of ((of_char c :: nat) + 32) else c)"

definition toLowerCase :: "string \<Rightarrow> string" where
  "toLowerCase s = map char_toLowerCase s"

fun str_includes :: "string \<Rightarrow> string \<Rightarrow> bool" where
  "str_includes [] t = (t = [])"
| "str_includes (c # cs) t = (prefix t (c # cs) \<or> str_includes cs t)"

definition startsWith :: "string \<Rightarrow> string \<Rightarrow> bool" where
  "startsWith s t = prefix t s"

definition detectChain :: "string \<Rightarrow> string \<Rightarrow> string" where
  "detectChain text ca =
     (let lowerText = toLowerCase text
      in if str_includes lowerText ''solana'' \<or> str_includes lowerText ''sol'' \<or> length ca > 40
         then ''SOL''
         else if str_includes lowerText ''base'' then ''BASE''
         else if str_includes lowerText ''bsc'' \<or> str_includes lowerText ''binance smart chain''
         then ''BSC''
         else if str_includes lowerText ''ethereum'' \<or> str_includes lowerText ''eth''
                 \<or> startsWith ca ''0x''
         then ''ETH''
         else ''UNKNOWN'')"

definition highRiskKeywords :: "string list" where
  "highRiskKeywords = [''rug pull'', ''scam'', ''honeypot'', ''beware'', ''warning'', ''avoid'']"

definition positiveKeywords :: "string list" where
  "positiveKeywords = [''audit'', ''safe'', ''verified'', ''legit'', ''solid team'', ''LP locked'']"

text \<open>
  The two \<open>for ... of\<close> loops of \<open>assessRisk\<close> are one function: \<open>delta\<close> is \<open>2\<close>
  in the first loop and \<open>-1\<close> in the second.
\<close>

fun keyword_loop :: "string \<Rightarrow> int \<Rightarrow> string list \<Rightarrow> int \<Rightarrow> int" where
  "keyword_loop lowerText delta [] riskScore = riskScore"
| "keyword_loop lowerText delta (keyword # rest) riskScore =
     keyword_loop lowerText delta rest
       (if str_includes lowerText keyword then riskScore + delta else riskScore)"

definition riskScore :: "string \<Rightarrow> int" where
  "riskScore text =
     (let lowerText = toLowerCase text
      in keyword_loop lowerText (- 1) positiveKeywords
           (keyword_loop lowerText 2 highRiskKeywords 0))"

definition riskLevel :: "int \<Rightarrow> string" where
  "riskLevel score =
     (if score \<ge> 4 then ''CRITICAL''
      else if score \<ge> 2 then ''HIGH''
      else if score \<ge> 0 then ''MEDIUM''
      else ''LOW'')"

definition assessRisk :: "string \<Rightarrow> string" where
  "assessRisk text = riskLevel (riskScore text)"

section \<open>Meme token hunter: contract-address extraction\<close>

text \<open>
  The two regular expressions, written out as matchers. A matcher is given the character
  before the position tried (\<open>None\<close> at the start of the text) and the text from that
  position on, and returns the length of the match there. \<open>\b\<close> holds between two
  positions when exactly one side is a word character \<open>[A-Za-z0-9_]\<close>.

  \<open>match_evm\<close> is \<open>/\b0x[a-fA-F0-9]{40}\b/\<close>. \<open>match_base58\<close> is
  \<open>/\b[1-9A-HJ-NP-Za-km-z]{32,44}\b/\<close>: the greedy quantifier takes up to 44 characters
  of the class and backtracks one character at a time, down to 32, until the closing
  \<open>\b\<close> holds.
\<close>

definition is_word_char :: "char \<Rightarrow> bool" where
  "is_word_char c =
     (char_between CHR ''a'' CHR ''z'' c \<or> char_between CHR ''A'' CHR ''Z'' c \<or>
      char_between CHR ''0'' CHR ''9'' c \<or> c = CHR ''_'')"

definition is_hex_char :: "char \<Rightarrow> bool" where
  "is_hex_char c =
     (char_between CHR ''a'' CHR ''f'' c \<or> char_between CHR ''A'' CHR ''F'' c \<or>
      char_between CHR ''0'' CHR ''9'' c)"

definition is_base58_char :: "char \<Rightarrow> bool" where
  "is_base58_char c =
     (char_between CHR ''1'' CHR ''9'' c \<or> char_between CHR ''A'' CHR ''H'' c \<or>
      char_between CHR ''J'' CHR ''N'' c \<or> char_between CHR ''P'' CHR ''Z'' c \<or>
      char_between CHR ''a'' CHR ''k'' c \<or> char_between CHR ''m'' CHR ''z'' c)"

definition first_char :: "string \<Rightarrow> char option" where
  "first_char s = (case s of [] \<Rightarrow> None | c # _ \<Rightarrow> Some c)"

definition word_boundary :: "char option \<Rightarrow> char option \<Rightarrow> bool" where
  "word_boundary prev nxt =
     ((case prev of None \<Rightarrow> False | Some c \<Rightarrow> is_word_char c) \<noteq>
      (case nxt of None \<Rightarrow> False | Some c \<Rightarrow> is_word_char c))"

definition match_evm :: "char option \<Rightarrow> string \<Rightarrow> nat option" where
  "match_evm prev rest =
     (if word_boundary prev (first_char rest) \<and> prefix ''0x'' rest \<and>
         42 \<le> length rest \<and> list_all is_hex_char (take 40 (drop 2 rest)) \<and>
         word_boundary (Some (rest ! 41)) (first_char (drop 42 rest))
      then Some 42 else None)"

definition match_base58 :: "char option \<Rightarrow> string \<Rightarrow> nat option" where
  "match_base58 prev rest =
     (if word_boundary prev (first_char rest)
      then
        (let longest = min 44 (length (takeWhile is_base58_char rest))
         in find (\<lambda>n. word_boundary (Some (rest ! (n - 1))) (first_char (drop n rest)))
              (rev [32..<longest + 1]))
      else None)"

text \<open>
  \<open>text.match(pattern)\<close> with the \<open>g\<close> flag: the matches from left to right, each
  search starting where the previous match ended (one character further after an empty
  match). No match at all gives \<open>null\<close> in the source, which adds nothing to the set; the
  empty list stands for it.
\<close>

fun match_global :: "(char option \<Rightarrow> string \<Rightarrow> nat option) \<Rightarrow> char option \<Rightarrow> string \<Rightarrow> string list"
  where
  "match_global pattern prev [] = (case pattern prev [] of None \<Rightarrow> [] | Some n \<Rightarrow> [[]])"
| "match_global pattern prev (c # cs) =
     (case pattern prev (c # cs) of
        None \<Rightarrow> match_global pattern (Some c) cs
      | Some n \<Rightarrow>
          if n = 0 then [] # match_global pattern (Some c) cs
          else take n (c # cs) #
               match_global pattern (Some ((c # cs) ! (n - 1))) (drop n (c # cs)))"

text \<open>
  A JavaScript \<open>Set\<close> keeps its elements in insertion order, and \<open>Array.from\<close> lists
  them in that order.
\<close>

definition Set_add :: "'a \<Rightarrow> 'a list \<Rightarrow> 'a list" where
  "Set_add x s = (if x \<in> set s then s else s @ [x])"

definition extractContractAddress :: "string \<Rightarrow> string list" where
  "extractContractAddress text =
     foldl (\<lambda>matches pattern. foldl (\<lambda>s m. Set_add m s) matches (match_global pattern None text))
       [] [match_evm, match_base58]"

section \<open>Meme token hunter: seen tokens\<close>

record hunter_config =
  check_interval_minutes :: double
  min_mentions_per_hour :: double
  chains :: "string list"
  search_keywords :: "string list"
  influencer_accounts :: "string list"
  alert_cooldown_hours :: double

text \<open>
  The \<open>Map\<close> of seen tokens is the list of its entries in insertion order; the stored
  timestamps are finite doubles. \<open>Object.entries\<close> of a parsed JSON object lists every key
  once, so the \<open>Map\<close> built from them is that list. The loop of \<open>init\<close> walks the entries
  and deletes the expired keys from the map.
\<close>

definition Map_delete :: "'k \<Rightarrow> ('k \<times> 'v) list \<Rightarrow> ('k \<times> 'v) list" where
  "Map_delete key m = filter (\<lambda>e. fst e \<noteq> key) m"

fun cleanup_loop ::
  "double \<Rightarrow> jsnum \<Rightarrow> (string \<times> double) list \<Rightarrow> (string \<times> double) list \<Rightarrow>
   (string \<times> double) list"
  where
  "cleanup_loop now cooldownMs [] seenTokens = seenTokens"
| "cleanup_loop now cooldownMs ((key, stamp) # rest) seenTokens =
     cleanup_loop now cooldownMs rest
       (if js_gt (js_sub (Fin now) (Fin stamp)) cooldownMs
        then Map_delete key seenTokens else seenTokens)"

text \<open>
  The part of \<open>init\<close> that loads the seen tokens. \<open>parsed\<close> is \<open>None\<close> when reading or
  parsing the file throws: the \<open>catch\<close> block resets the map to an empty one. \<open>now\<close> is
  \<open>Date.now()\<close>.
\<close>

definition load_seen_tokens ::
  "hunter_config \<Rightarrow> double \<Rightarrow> (string \<times> double) list option \<Rightarrow> (string \<times> double) list"
  where
  "load_seen_tokens config now parsed =
     (case parsed of
        None \<Rightarrow> []
      | Some entries \<Rightarrow>
          (let seenTokens = entries;
               cooldownMs =
                 js_mul (js_mul (js_mul (Fin (alert_cooldown_hours config)) (js 60)) (js 60))
                   (js 1000)
           in cleanup_loop now cooldownMs seenTokens seenTokens))"

section \<open>Notions of the specification\<close>

text \<open>
  The exact arithmetic mean of real numbers, and the mean as the scripts compute it: the
  sum accumulated from 0 in the order of the list, each addition rounded, divided by the
  length. \<open>num_is x r\<close> says that the number \<open>x\<close> is finite and its value is \<open>r\<close>.
\<close>

definition arithmetic_mean :: "real list \<Rightarrow> real" where
  "arithmetic_mean xs = sum_list xs / real (length xs)"

definition num_is :: "jsnum \<Rightarrow> real \<Rightarrow> bool" where
  "num_is x r = (case x of Fin d \<Rightarrow> val d = r | _ \<Rightarrow> False)"

definition double_mean :: "double list \<Rightarrow> jsnum" where
  "double_mean xs =
     js_div (foldl (\<lambda>sum x. js_add sum (Fin x)) (js 0) xs) (js (real (length xs)))"

text \<open>
  The rounding of the results: \<open>Math.round(x * 100) / 100\<close> for the moving averages,
  \<open>Math.round(Math.min(Math.abs(pc), 100) * 10) / 10\<close> for the strength of a classified
  trend, where \<open>pc\<close> is the price change of the last close \<open>c\<close> against the first close
  \<open>r0\<close> of the window; and the last steps of \<open>calculateRSI\<close> from the ratio \<open>rs\<close> on.
\<close>

definition round_hundredths :: "jsnum \<Rightarrow> jsnum" where
  "round_hundredths x = js_div (Math_round (js_mul x (js 100))) (js 100)"




text \<open>
  \<open>at_least c x\<close>: the number \<open>x\<close> is not \<open>NaN\<close> and is at least \<open>c\<close>. \<open>tiny\<close> is the
  smallest positive double.
\<close>

definition at_least :: "real \<Rightarrow> jsnum \<Rightarrow> bool" where
  "at_least c x = (case x of Fin d \<Rightarrow> c \<le> val d | PosInf \<Rightarrow> True | _ \<Rightarrow> False)"

definition tiny :: real where
  "tiny = 2 powi (- 1074)"



text \<open>
  The consensus signals, the number of timeframes of a given trend, and the mean rsi of a
  mapping as \<open>generateMarketSignals\<close> computes it.
\<close>

definition is_consensus :: "signal \<Rightarrow> bool" where
  "is_consensus s = (s = MultiBullish \<or> s = MultiBearish \<or> s = MixedSignals)"

definition count_trend :: "trend \<Rightarrow> (string \<times> indicator_result) list \<Rightarrow> nat" where
  "count_trend t ka = length (filter (\<lambda>e. trend (snd e) = t) ka)"

definition computed_mean_rsi :: "(string \<times> indicator_result) list \<Rightarrow> jsnum" where
  "computed_mean_rsi ka =
     js_div (foldl (\<lambda>sum r. js_add sum r) (js 0) (map (\<lambda>e. rsi (snd e)) ka))
       (js (real (length ka)))"

text \<open>
  The cooldown in milliseconds as \<open>init\<close> computes it, three rounded products, and the
  test of its loop: the rounded age of an entry exceeds that cooldown.
\<close>

definition cooldown_ms :: "hunter_config \<Rightarrow> jsnum" where
  "cooldown_ms config =
     js_mul (js_mul (js_mul (Fin (alert_cooldown_hours config)) (js 60)) (js 60)) (js 1000)"

definition expired :: "hunter_config \<Rightarrow> double \<Rightarrow> double \<Rightarrow> bool" where
  "expired config now stamp = js_gt (js_sub (Fin now) (Fin stamp)) (cooldown_ms config)"

text \<open>
  An address-shaped token starts at position \<open>j\<close> of a text when one of the two patterns
  matches there; \<open>prev_char\<close> is the character before the position.
\<close>

definition prev_char :: "string \<Rightarrow> nat \<Rightarrow> char option" where
  "prev_char text i = (if i = 0 then None else Some (text ! (i - 1)))"

definition no_match_at :: "string \<Rightarrow> nat \<Rightarrow> bool" where
  "no_match_at text j =
     (match_evm (prev_char text j) (drop j text) = None \<and>
      match_base58 (prev_char text j) (drop j text) = None)"

section \<open>Example inputs\<close>

text \<open>
  The default configurations are the ones \<open>init\<close> falls back to. A flat candle has
  the double nearest to the given price in its four price fields.
\<close>

definition default_config :: btc_config where
  "default_config =
     \<lparr>binance_api = ''https://api.binance.com'',
      kline_timeframes = [''5m'', ''15m'', ''1h'', ''4h''],
      price_alerts = \<lparr>sharp_change_percent = dbl 2, volume_spike_multiplier = dbl 3\<rparr>\<rparr>"

definition flat_candle :: "real \<Rightarrow> candle" where
  "flat_candle c =
     \<lparr>timestamp = 0, open_c = dbl c, high = dbl c, low = dbl c, close = dbl c, volume = dbl 1\<rparr>"

definition rising16 :: "candle list" where
  "rising16 = map flat_candle [1, 2, 3, 4, 5, 6, 7, 8, 9, 10, 11, 12, 13, 14, 15, 16]"

definition falling16 :: "candle list" where
  "falling16 = map flat_candle [16, 15, 14, 13, 12, 11, 10, 9, 8, 7, 6, 5, 4, 3, 2, 1]"

definition default_hunter_config :: hunter_config where
  "default_hunter_config =
     \<lparr>check_interval_minutes = dbl 10,
      min_mentions_per_hour = dbl 50,
      chains = [''SOL'', ''ETH'', ''BASE'', ''BSC''],
      search_keywords =
        [''meme coin mooning right now CA'', ''just launched contract address'',
         ''100x potential meme''],
      influencer_accounts = [''@ansem'', ''@blknoiz06'', ''@Flowslikeosmo''],
      alert_cooldown_hours = dbl 24\<rparr>"


definition three_flat :: "candle list" where
  "three_flat = map flat_candle [10, 10, 10]"

definition ten_uneven :: "candle list" where
  "ten_uneven = map flat_candle [1, 1, 1, 1, 1, 1, 1, 1, 1, 9 / 8]"



definition quiet_price :: price_data where
  "quiet_price =
     \<lparr>price = dbl 60000, change24h = dbl 1, volume24h = dbl 1000, high24h = dbl 61000,
      low24h = dbl 59000, trades = 100\<rparr>"

definition with_rsis :: "real list \<Rightarrow> (string \<times> indicator_result) list" where
  "with_rsis rs =
     zip [''5m'', ''15m'', ''1h'', ''4h''] (map (\<lambda>r. unknown_result\<lparr>rsi := js r\<rparr>) rs)"

definition three_bullish :: "(string \<times> indicator_result) list" where
  "three_bullish =
     [(''5m'', unknown_result\<lparr>trend := Bullish\<rparr>), (''15m'', unknown_result\<lparr>trend := Bullish\<rparr>),
      (''1h'', unknown_result\<lparr>trend := Bearish\<rparr>), (''4h'', unknown_result\<lparr>trend := Bullish\<rparr>)]"

definition sample_address :: string where
  "sample_address = ''0xABCDEF0123456789ABCDEF0123456789ABCDEF01''"

definition tagged_text :: string where
  "tagged_text = ''CA: '' @ sample_address @ '' on ethereum''"

definition now0 :: double where
  "now0 = dbl 1700000000000"

definition sample_seen :: "(string \<times> double) list" where
  "sample_seen =
     [(''old_SOL'', dbl (1700000000000 - 25 * 3600000)),
      (''new_ETH'', dbl (1700000000000 - 23 * 3600000))]"

text \<open>
  A cooldown of 0.3 hours: the double nearest to 0.3 is below 0.3, and the three rounded
  products of \<open>init\<close> give 1080000 milliseconds exactly.
\<close>

definition fractional_config :: hunter_config where
  "fractional_config = default_hunter_config\<lparr>alert_cooldown_hours := dbl (3 / 10)\<rparr>"

definition boundary_seen :: "(string \<times> double) list" where
  "boundary_seen = [(''edge_SOL'', dbl (1700000000000 - 1080000))]"

section \<open>Rounding to binary64\<close>

lemma p2_pos: "0 < (2::real) powi e"
  by (simp add: power_int_def)

lemma p2_add: "(2::real) powi (a + b) = 2 powi a * 2 powi b"
  by (simp add: power_int_add)

lemma p2_diff: "(2::real) powi (a - b) = 2 powi a / 2 powi b"
  by (simp add: power_int_diff)

lemma p2_le: "(2::real) powi a \<le> 2 powi b \<longleftrightarrow> a \<le> b"
proof
  assume le: "(2::real) powi a \<le> 2 powi b"
  show "a \<le> b"
  proof (rule ccontr)
    assume "\<not> a \<le> b"
    then have "b < a" by simp
    then have "(2::real) powi b < 2 powi a" by (rule power_int_strict_increasing) simp
    then show False using le by simp
  qed
next
  assume "a \<le> b"
  then show "(2::real) powi a \<le> 2 powi b" by (rule power_int_increasing) simp
qed

lemma p2_less: "(2::real) powi a < 2 powi b \<longleftrightarrow> a < b"
  using p2_le [of b a] by (auto simp add: not_le [symmetric])

lemma ilog2_bounds:
  "0 < x \<Longrightarrow> 2 powi ilog2 x \<le> x \<and> x < 2 powi (ilog2 x + 1)"
proof (induction x rule: ilog2.induct)
  case (1 x)
  show ?case
  proof (cases "2 \<le> x")
    case True
    then have e: "ilog2 x = ilog2 (x / 2) + 1" by (subst ilog2.simps) simp
    have "2 powi ilog2 (x / 2) \<le> x / 2 \<and> x / 2 < 2 powi (ilog2 (x / 2) + 1)"
      using "1.IH"(1) [OF True] "1.prems" by simp
    then show ?thesis unfolding e by (simp add: p2_add)
  next
    case False
    show ?thesis
    proof (cases "x < 1")
      case True
      then have c: "0 < x \<and> x < 1" using "1.prems" by simp
      have e: "ilog2 x = ilog2 (x * 2) - 1" using False c by (subst ilog2.simps) simp
      have "2 powi ilog2 (x * 2) \<le> x * 2 \<and> x * 2 < 2 powi (ilog2 (x * 2) + 1)"
        using "1.IH"(2) [OF False c] "1.prems" by simp
      then show ?thesis unfolding e by (simp add: p2_add p2_diff)
    next
      case ge: False
      have e: "ilog2 x = 0" using False ge by (subst ilog2.simps) simp
      show ?thesis unfolding e using False ge by simp
    qed
  qed
qed

lemma ilog2_unique:
  assumes "0 < x" "2 powi e \<le> x" "x < 2 powi (e + 1)"
  shows "ilog2 x = e"
proof -
  have b: "2 powi ilog2 x \<le> x" "x < 2 powi (ilog2 x + 1)"
    using ilog2_bounds [OF assms(1)] by simp_all
  have "(2::real) powi e < 2 powi (ilog2 x + 1)" using assms(2) b(2) by simp
  then have 1: "e < ilog2 x + 1" by (simp add: p2_less)
  have "(2::real) powi ilog2 x < 2 powi (e + 1)" using assms(3) b(1) by simp
  then have 2: "ilog2 x < e + 1" by (simp add: p2_less)
  show ?thesis using 1 2 by simp
qed

lemma ilog2_mono:
  assumes "0 < x" "x \<le> y"
  shows "ilog2 x \<le> ilog2 y"
proof -
  have "2 powi ilog2 x \<le> x" using ilog2_bounds [OF assms(1)] by simp
  moreover have "y < 2 powi (ilog2 y + 1)" using ilog2_bounds [of y] assms by simp
  ultimately have "(2::real) powi ilog2 x < 2 powi (ilog2 y + 1)" using assms(2) by simp
  then show ?thesis by (simp add: p2_less)
qed

lemma rhe_int: "round_half_even (of_int n) = n"
  by (simp add: round_half_even_def)

lemma rhe_range: "\<lfloor>y\<rfloor> \<le> round_half_even y \<and> round_half_even y \<le> \<lfloor>y\<rfloor> + 1"
  by (simp add: round_half_even_def Let_def)

lemma rhe_mono:
  assumes "x \<le> y"
  shows "round_half_even x \<le> round_half_even y"
proof (cases "\<lfloor>x\<rfloor> = \<lfloor>y\<rfloor>")
  case True
  have "x - of_int \<lfloor>x\<rfloor> \<le> y - of_int \<lfloor>y\<rfloor>" using assms True by simp
  then show ?thesis using True by (auto simp add: round_half_even_def Let_def)
next
  case False
  have "\<lfloor>x\<rfloor> \<le> \<lfloor>y\<rfloor>" using assms by (rule floor_mono)
  then have "\<lfloor>x\<rfloor> + 1 \<le> \<lfloor>y\<rfloor>" using False by simp
  then show ?thesis using rhe_range [of x] rhe_range [of y] by linarith
qed

lemma rhe_minus: "round_half_even (- y) = - round_half_even y"
proof (cases "y = of_int \<lfloor>y\<rfloor>")
  case True
  then obtain n where "y = of_int n" ..
  then show ?thesis using rhe_int [of n] rhe_int [of "- n"] by simp
next
  case False
  define f where "f = \<lfloor>y\<rfloor>"
  define d where "d = y - of_int f"
  have f': "\<lfloor>- y\<rfloor> = - f - 1"
    using False by (simp add: floor_minus ceiling_altdef f_def)
  have d': "- y - of_int (- f - 1) = 1 - d" by (simp add: d_def)
  have a: "round_half_even y =
      (if d < 1 / 2 then f else if d > 1 / 2 then f + 1 else if even f then f else f + 1)"
    by (simp add: round_half_even_def Let_def f_def d_def)
  have b: "round_half_even (- y) =
      (if 1 - d < 1 / 2 then - f - 1 else if 1 - d > 1 / 2 then - f - 1 + 1
       else if even (- f - 1) then - f - 1 else - f - 1 + 1)"
    unfolding round_half_even_def Let_def f' d' ..
  consider "d < 1 / 2" | "d > 1 / 2" | "d = 1 / 2" by linarith
  then show ?thesis
  proof cases
    case 1
    then show ?thesis unfolding a b by simp
  next
    case 2
    then show ?thesis unfolding a b by simp
  next
    case 3
    then show ?thesis unfolding a b by simp
  qed
qed

lemma rhe_le_int: "y \<le> of_int n \<Longrightarrow> round_half_even y \<le> n"
  using rhe_mono [of y "of_int n"] by (simp add: rhe_int)

lemma rhe_ge_int: "of_int n \<le> y \<Longrightarrow> n \<le> round_half_even y"
  using rhe_mono [of "of_int n" y] by (simp add: rhe_int)

lemma ulp_exp_ge: "- 1074 \<le> ulp_exp x"
  by (simp add: ulp_exp_def)

lemma ulp_exp_minus: "ulp_exp (- x) = ulp_exp x"
  by (simp add: ulp_exp_def)

lemma rne_0: "rne 0 = 0"
  by (simp add: rne_def rhe_int [of 0, simplified])

lemma rne_minus: "rne (- x) = - rne x"
  by (simp add: rne_def ulp_exp_minus rhe_minus)

lemma rne_exact:
  assumes "x = of_int m * 2 powi ulp_exp x"
  shows "rne x = x"
proof -
  have "x / 2 powi ulp_exp x = of_int m"
    using assms p2_pos [of "ulp_exp x"] by (simp add: field_simps)
  then show ?thesis unfolding rne_def using assms by (simp add: rhe_int)
qed

lemma rne_grid_pos:
  assumes q: "- 1074 \<le> q" and k: "0 < k" "k \<le> 2 ^ 53"
  shows "rne (of_int k * 2 powi q) = of_int k * 2 powi q"
proof -
  define r :: real where "r = of_int k * 2 powi q"
  have rpos: "0 < r" using k(1) p2_pos [of q] by (simp add: r_def)
  define e where "e = ilog2 r"
  define q' where "q' = ulp_exp r"
  have q'_def2: "q' = max e (- 1022) - 52" using rpos by (simp add: q'_def ulp_exp_def e_def)
  have b: "2 powi e \<le> r" "r < 2 powi (e + 1)" using ilog2_bounds [OF rpos] by (simp_all add: e_def)
  have "\<exists>m. r = of_int m * 2 powi q'"
  proof (cases "q' \<le> q")
    case True
    have "(2::real) powi q = 2 powi (q - q') * 2 powi q'" by (simp add: p2_add [symmetric])
    also have "(2::real) powi (q - q') = of_int (2 ^ nat (q - q'))"
      using True by (simp add: power_int_def)
    finally have "r = of_int (k * 2 ^ nat (q - q')) * 2 powi q'" by (simp add: r_def)
    then show ?thesis ..
  next
    case False
    then have gt: "q < q'" by simp
    then have norm: "- 1022 < e" "q' = e - 52" using q q'_def2 by auto
    have kr: "(of_int k :: real) \<le> 2 ^ 53" using k(2) by (metis of_int_le_iff of_int_numeral of_int_power)
    have "r \<le> 2 ^ 53 * 2 powi q" unfolding r_def using kr p2_pos [of q] by simp
    also have "\<dots> = 2 powi (53 + q)" by (simp add: p2_add)
    finally have "(2::real) powi e \<le> 2 powi (53 + q)" using b(1) by simp
    then have "e \<le> 53 + q" by (simp add: p2_le)
    then have eq: "q' = q + 1" "e = q + 53" using gt norm(2) by simp_all
    have "(2::real) powi e = 2 ^ 53 * 2 powi q" unfolding eq by (simp add: p2_add)
    then have "2 ^ 53 * 2 powi q \<le> of_int k * (2::real) powi q" using b(1) by (simp add: r_def)
    then have "(2::real) ^ 53 \<le> of_int k" using p2_pos [of q] by simp
    then have "of_int k = (2::real) ^ 53" using kr by simp
    then have "r = 2 ^ 53 * 2 powi q" by (simp add: r_def)
    also have "\<dots> = of_int (2 ^ 52) * 2 powi q'" unfolding eq by (simp add: p2_add)
    finally show ?thesis ..
  qed
  then obtain m where "r = of_int m * 2 powi ulp_exp r" unfolding q'_def ..
  then have "rne r = r" by (rule rne_exact)
  then show ?thesis by (simp add: r_def)
qed

lemma rne_grid:
  assumes q: "- 1074 \<le> q" and k: "\<bar>k\<bar> \<le> 2 ^ 53"
  shows "rne (of_int k * 2 powi q) = of_int k * 2 powi q"
proof -
  consider "k = 0" | "0 < k" | "k < 0" by linarith
  then show ?thesis
  proof cases
    case 1
    then show ?thesis by (simp add: rne_0)
  next
    case 2
    then show ?thesis using rne_grid_pos [OF q 2] k by simp
  next
    case 3
    then have "rne (of_int (- k) * 2 powi q) = of_int (- k) * 2 powi q"
      using k by (intro rne_grid_pos [OF q]) simp_all
    then show ?thesis using rne_minus [of "of_int k * 2 powi q"] by simp
  qed
qed

lemma rne_int: "\<bar>n\<bar> \<le> 2 ^ 53 \<Longrightarrow> rne (of_int n) = of_int n"
  using rne_grid [of 0 n] by simp

lemma rne_form_pos:
  assumes "0 < x"
  shows "0 \<le> round_half_even (x / 2 powi ulp_exp x) \<and>
         round_half_even (x / 2 powi ulp_exp x) \<le> 2 ^ 53"
proof -
  define q where "q = ulp_exp x"
  define y where "y = x / 2 powi q"
  have ypos: "0 \<le> y" using assms p2_pos [of q] by (simp add: y_def)
  have "ilog2 x + 1 \<le> q + 53" using assms by (simp add: q_def ulp_exp_def)
  then have "(2::real) powi (ilog2 x + 1) \<le> 2 powi (q + 53)" by (simp add: p2_le)
  then have "x < 2 powi (q + 53)" using ilog2_bounds [OF assms] by simp
  then have "x < 2 ^ 53 * 2 powi q" by (simp add: p2_add)
  then have "y < 2 ^ 53" unfolding y_def using p2_pos [of q] by (simp add: field_simps)
  then have "y \<le> of_int (2 ^ 53)" by simp
  then have hi: "round_half_even y \<le> 2 ^ 53" by (rule rhe_le_int)
  have "of_int 0 \<le> y" using ypos by simp
  then have lo: "0 \<le> round_half_even y" by (rule rhe_ge_int)
  show ?thesis using hi lo by (simp add: y_def q_def)
qed

lemma rne_nonneg: "0 \<le> x \<Longrightarrow> 0 \<le> rne x"
proof (cases "x = 0")
  case True
  then show ?thesis by (simp add: rne_0)
next
  case False
  assume "0 \<le> x"
  then have "0 < x" using False by simp
  then show ?thesis unfolding rne_def using rne_form_pos [of x] p2_pos [of "ulp_exp x"] by simp
qed

lemma rne_idem_pos:
  assumes "0 < x"
  shows "rne (rne x) = rne x"
proof -
  define k where "k = round_half_even (x / 2 powi ulp_exp x)"
  have k: "0 \<le> k" "k \<le> 2 ^ 53" using rne_form_pos [OF assms] by (simp_all add: k_def)
  have "rne (of_int k * 2 powi ulp_exp x) = of_int k * 2 powi ulp_exp x"
    using k by (intro rne_grid ulp_exp_ge) simp
  then show ?thesis by (simp add: rne_def k_def)
qed

lemma rne_idem: "rne (rne x) = rne x"
proof -
  consider "x = 0" | "0 < x" | "x < 0" by linarith
  then show ?thesis
  proof cases
    case 1
    then show ?thesis by (simp add: rne_0)
  next
    case 2
    then show ?thesis by (rule rne_idem_pos)
  next
    case 3
    then have "rne (rne (- x)) = rne (- x)" by (intro rne_idem_pos) simp
    then show ?thesis by (simp add: rne_minus)
  qed
qed

lemma ulp_exp_mono:
  assumes "0 < x" "x \<le> y"
  shows "ulp_exp x \<le> ulp_exp y"
  using ilog2_mono [OF assms] assms by (simp add: ulp_exp_def)

lemma rne_upper_pos:
  assumes "0 < x"
  shows "rne x \<le> 2 powi (ulp_exp x + 53)"
proof -
  have "round_half_even (x / 2 powi ulp_exp x) \<le> 2 ^ 53" using rne_form_pos [OF assms] by simp
  then have "(of_int (round_half_even (x / 2 powi ulp_exp x)) :: real) \<le> 2 ^ 53"
    by (metis of_int_le_iff of_int_numeral of_int_power)
  then have "rne x \<le> 2 ^ 53 * 2 powi ulp_exp x"
    unfolding rne_def using p2_pos [of "ulp_exp x"] by simp
  then show ?thesis by (simp add: p2_add)
qed

lemma rne_lower_normal:
  assumes "0 < x" "- 1022 \<le> ilog2 x"
  shows "2 powi ilog2 x \<le> rne x"
proof -
  define q where "q = ulp_exp x"
  have q: "q = ilog2 x - 52" using assms by (simp add: q_def ulp_exp_def)
  have "2 powi ilog2 x \<le> x" using ilog2_bounds [OF assms(1)] by simp
  then have "2 powi ilog2 x / 2 powi q \<le> x / 2 powi q"
    using p2_pos [of q] by (simp add: divide_right_mono)
  then have "of_int (2 ^ 52) \<le> x / 2 powi q" by (simp add: q p2_diff [symmetric])
  then have "2 ^ 52 \<le> round_half_even (x / 2 powi q)" by (rule rhe_ge_int)
  then have "(2::real) ^ 52 \<le> of_int (round_half_even (x / 2 powi q))"
    by (metis of_int_le_iff of_int_numeral of_int_power)
  then have "2 ^ 52 * 2 powi q \<le> rne x"
    unfolding rne_def q_def using p2_pos [of "ulp_exp x"] by simp
  moreover have "2 ^ 52 * (2::real) powi q = 2 powi ilog2 x" by (simp add: q p2_diff)
  ultimately show ?thesis by simp
qed

lemma rne_mono_pos:
  assumes "0 < x" "x \<le> y"
  shows "rne x \<le> rne y"
proof (cases "ulp_exp x = ulp_exp y")
  case True
  have "x / 2 powi ulp_exp y \<le> y / 2 powi ulp_exp y"
    using assms(2) p2_pos [of "ulp_exp y"] by (simp add: divide_right_mono)
  then have "round_half_even (x / 2 powi ulp_exp y) \<le> round_half_even (y / 2 powi ulp_exp y)"
    by (rule rhe_mono)
  then show ?thesis unfolding rne_def True using p2_pos [of "ulp_exp y"] by simp
next
  case False
  have ypos: "0 < y" using assms by simp
  have lt: "ulp_exp x < ulp_exp y" using ulp_exp_mono [OF assms] False by simp
  have "- 1074 < ulp_exp y" using lt ulp_exp_ge [of x] by simp
  then have norm: "- 1022 \<le> ilog2 y" "ulp_exp y = ilog2 y - 52"
    using ypos by (auto simp add: ulp_exp_def)
  have "rne x \<le> 2 powi (ulp_exp x + 53)" by (rule rne_upper_pos [OF assms(1)])
  also have "\<dots> \<le> 2 powi ilog2 y" using lt norm(2) by (simp add: p2_le)
  also have "\<dots> \<le> rne y" by (rule rne_lower_normal [OF ypos norm(1)])
  finally show ?thesis .
qed

lemma rne_mono:
  assumes "x \<le> y"
  shows "rne x \<le> rne y"
proof -
  consider "0 < x" | "x \<le> 0 \<and> 0 \<le> y" | "y < 0" using assms by linarith
  then show ?thesis
  proof cases
    case 1
    then show ?thesis using assms by (rule rne_mono_pos)
  next
    case 2
    then have "0 \<le> rne y" "0 \<le> rne (- x)" by (simp_all add: rne_nonneg)
    then show ?thesis by (simp add: rne_minus)
  next
    case 3
    then have "rne (- y) \<le> rne (- x)" using assms by (intro rne_mono_pos) simp_all
    then show ?thesis by (simp add: rne_minus)
  qed
qed

lemma rne_le_fix: "x \<le> c \<Longrightarrow> rne c = c \<Longrightarrow> rne x \<le> c"
  using rne_mono [of x c] by simp

lemma rne_ge_fix: "c \<le> x \<Longrightarrow> rne c = c \<Longrightarrow> c \<le> rne x"
  using rne_mono [of c x] by simp


lemma val_Abs: "rne r = r \<Longrightarrow> \<bar>r\<bar> < overflow_threshold \<Longrightarrow> val (Abs_double r) = r"
  by (simp add: Abs_double_inverse)

lemma val_rne: "rne (val a) = val a"
  using val [of a] by simp


lemma fl_fin:
  assumes "\<bar>rne x\<bar> < overflow_threshold"
  shows "\<exists>d. fl x = Fin d \<and> val d = rne x"
proof -
  have "val (Abs_double (rne x)) = rne x" using assms by (intro val_Abs rne_idem)
  moreover have "fl x = Fin (Abs_double (rne x))" using assms by (auto simp add: fl_def)
  ultimately show ?thesis by blast
qed


lemmas eval_num = rne_def ulp_exp_def ilog2.simps round_half_even_def fl_def js_def dbl_def val_Abs
  overflow_threshold_def

lemma fl_cases:
  obtains (pos) "fl x = PosInf" "overflow_threshold \<le> rne x"
  | (neg) "fl x = NegInf" "rne x \<le> - overflow_threshold"
  | (fin) d where "fl x = Fin d" "val d = rne x"
proof (cases "\<bar>rne x\<bar> < overflow_threshold")
  case True
  then show ?thesis using fl_fin [OF True] fin by blast
next
  case False
  show ?thesis
  proof (cases "overflow_threshold \<le> rne x")
    case True
    then show ?thesis using pos by (simp add: fl_def)
  next
    case ge: False
    then have le: "rne x \<le> - overflow_threshold" using False by simp
    then have "fl x = NegInf" using ge by (simp add: fl_def)
    then show ?thesis using neg le by simp
  qed
qed

lemma fl_at_least:
  assumes "c \<le> x" "rne c = c" "- overflow_threshold < c"
  shows "at_least c (fl x)"
proof (cases x rule: fl_cases)
  case pos
  then show ?thesis by (simp add: at_least_def)
next
  case neg
  have "c \<le> rne x" using rne_mono [OF assms(1)] assms(2) by simp
  then show ?thesis using neg(2) assms(3) by simp
next
  case (fin d)
  have "c \<le> rne x" using rne_mono [OF assms(1)] assms(2) by simp
  then show ?thesis using fin by (simp add: at_least_def)
qed

lemma fl_in_range:
  assumes "lo \<le> x" "x \<le> hi" "rne lo = lo" "rne hi = hi"
    and "- overflow_threshold < lo" "hi < overflow_threshold"
  shows "in_range lo hi (fl x)"
proof -
  have b: "lo \<le> rne x" "rne x \<le> hi"
    using rne_mono [OF assms(1)] rne_mono [OF assms(2)] assms(3,4) by simp_all
  then have "\<bar>rne x\<bar> < overflow_threshold" using assms(5,6) by simp
  then obtain d where "fl x = Fin d" "val d = rne x" using fl_fin by blast
  then show ?thesis using b by (simp add: in_range_def)
qed

lemma in_rangeE:
  assumes "in_range lo hi x"
  obtains d where "x = Fin d" "lo \<le> val d" "val d \<le> hi"
  using assms by (cases x) (auto simp add: in_range_def)

lemma rne_numeral: "numeral n \<le> (2::int) ^ 53 \<Longrightarrow> rne (numeral n) = numeral n"
  using rne_int [of "numeral n"] by simp

lemma rne_1: "rne 1 = 1"
  using rne_int [of 1] by simp

lemma threshold_pos: "0 < overflow_threshold"
  by (simp add: overflow_threshold_def p2_pos)

lemma big_bound: "(2::real) ^ 53 < overflow_threshold"
proof -
  have "(2::real) powi 53 < 2 powi 1024" by (simp only: p2_less)
  then show ?thesis by (simp add: overflow_threshold_def)
qed

lemma numeral_bound:
  assumes "numeral n \<le> (2::int) ^ 53"
  shows "(numeral n :: real) < overflow_threshold"
proof -
  have "(of_int (numeral n) :: real) \<le> of_int (2 ^ 53)"
    by (rule of_int_le_iff [THEN iffD2, OF assms])
  then have "(numeral n :: real) \<le> 2 ^ 53" by (simp only: of_int_numeral of_int_power)
  from this big_bound show ?thesis by (rule le_less_trans)
qed

lemma fl_exact:
  assumes "rne r = r" "\<bar>r\<bar> < overflow_threshold"
  shows "fl r = Fin (Abs_double r)" "val (Abs_double r) = r"
  using assms by (auto simp add: fl_def val_Abs)

lemma js_numeral:
  assumes "numeral n \<le> (2::int) ^ 53"
  shows "js (numeral n) = Fin (dbl (numeral n))" "val (dbl (numeral n)) = numeral n"
proof -
  have r: "rne (numeral n) = numeral n" by (rule rne_numeral [OF assms])
  have b: "\<bar>numeral n :: real\<bar> < overflow_threshold" using numeral_bound [OF assms] by simp
  show "js (numeral n) = Fin (dbl (numeral n))"
    using fl_exact [OF r b] by (simp add: js_def dbl_def)
  show "val (dbl (numeral n)) = numeral n"
    using fl_exact [OF r b] by (simp add: dbl_def)
qed

lemma js_0: "js 0 = Fin (dbl 0)" "val (dbl 0) = 0"
proof -
  have b: "\<bar>0 :: real\<bar> < overflow_threshold" using threshold_pos by simp
  show "js 0 = Fin (dbl 0)" using fl_exact [OF rne_0 b] by (simp add: js_def dbl_def)
  show "val (dbl 0) = 0" using fl_exact [OF rne_0 b] by (simp add: dbl_def)
qed

lemma js_1: "js 1 = Fin (dbl 1)" "val (dbl 1) = 1"
proof -
  have "(1::real) \<le> 2 ^ 53" by simp
  then have b: "\<bar>1 :: real\<bar> < overflow_threshold" using big_bound by simp
  show "js 1 = Fin (dbl 1)" using fl_exact [OF rne_1 b] by (simp add: js_def dbl_def)
  show "val (dbl 1) = 1" using fl_exact [OF rne_1 b] by (simp add: dbl_def)
qed

lemma fl_0: "fl 0 = Fin (dbl 0)"
  using js_0(1) by (simp add: js_def)



section \<open>Indicator engine: RSI\<close>

lemma tiny_pos: "0 < tiny"
  by (simp add: tiny_def p2_pos)

lemma rne_tiny_mult:
  assumes "k \<le> 100"
  shows "rne (of_nat k * tiny) = of_nat k * tiny"
proof -
  have "\<bar>int k\<bar> \<le> 2 ^ 53" using assms by simp
  then have "rne (of_int (int k) * 2 powi (- 1074)) = of_int (int k) * 2 powi (- 1074)"
    by (intro rne_grid) simp_all
  then show ?thesis by (simp add: tiny_def)
qed

lemma rne_tiny: "rne tiny = tiny"
  using rne_tiny_mult [of 1] by simp

lemma on_grid:
  assumes "rne r = r"
  shows "\<exists>k. r = of_int k * tiny"
proof -
  define q where "q = ulp_exp r"
  define m where "m = round_half_even (r / 2 powi q)"
  have r: "r = of_int m * 2 powi q" using assms by (simp add: rne_def m_def q_def)
  have "0 \<le> q + 1074" using ulp_exp_ge [of r] by (simp add: q_def)
  then have "(2::real) powi (q + 1074) = of_int (2 ^ nat (q + 1074))"
    by (simp add: power_int_def)
  moreover have "(2::real) powi q = 2 powi (q + 1074) * tiny"
  proof -
    have e: "q = (q + 1074) + (- 1074)" by simp
    have "(2::real) powi q = 2 powi ((q + 1074) + (- 1074))"
      by (rule arg_cong [OF e, of "\<lambda>z. (2::real) powi z"])
    also have "\<dots> = 2 powi (q + 1074) * 2 powi (- 1074)" by (rule p2_add)
    finally show ?thesis unfolding tiny_def .
  qed
  ultimately have "r = of_int (m * 2 ^ nat (q + 1074)) * tiny" using r by simp
  then show ?thesis ..
qed

lemma diff_ge_tiny:
  assumes "val b < val a"
  shows "tiny \<le> val a - val b"
proof -
  obtain ka where ka: "val a = of_int ka * tiny" using on_grid [OF val_rne] ..
  obtain kb where kb: "val b = of_int kb * tiny" using on_grid [OF val_rne] ..
  have "of_int kb * tiny < of_int ka * tiny" using assms ka kb by simp
  then have "(of_int kb :: real) < of_int ka" using tiny_pos by simp
  then have "kb + 1 \<le> ka" by simp
  then have "(of_int kb :: real) + 1 \<le> of_int ka" by linarith
  then have "(of_int kb + 1) * tiny \<le> of_int ka * tiny"
    using tiny_pos by (simp only: mult_le_cancel_right_pos)
  then show ?thesis unfolding ka kb by (simp add: algebra_simps)
qed

lemma tiny_gt_neg: "- overflow_threshold < tiny"
  using tiny_pos threshold_pos by simp

lemma at_least_gt_0:
  assumes "at_least tiny x"
  shows "js_gt x (js 0)"
proof (cases x)
  case (Fin d)
  then show ?thesis using assms tiny_pos by (simp add: at_least_def js_0)
qed (use assms in \<open>simp_all add: at_least_def js_0\<close>)

lemma sub_rising:
  assumes "val b < val a"
  shows "js_gt (js_sub (Fin a) (Fin b)) (js 0)"
proof -
  have "at_least tiny (fl (val a - val b))"
    by (intro fl_at_least diff_ge_tiny assms rne_tiny tiny_gt_neg)
  then show ?thesis using at_least_gt_0 by simp
qed

lemma sub_falling:
  assumes "val a < val b"
  shows "\<not> js_gt (js_sub (Fin a) (Fin b)) (js 0) \<and>
         at_least tiny (Math_abs (js_sub (Fin a) (Fin b)))"
proof -
  have le: "val a - val b \<le> - tiny" using diff_ge_tiny [OF assms] by simp
  have r: "rne (val a - val b) \<le> - tiny"
    using rne_mono [OF le] by (simp add: rne_minus rne_tiny)
  show ?thesis
  proof (cases "val a - val b" rule: fl_cases)
    case pos
    then show ?thesis using r tiny_pos threshold_pos by simp
  next
    case neg
    then show ?thesis by (simp add: js_0 at_least_def)
  next
    case (fin d)
    have d: "val d \<le> - tiny" using r fin(2) by simp
    have "at_least tiny (fl \<bar>val d\<bar>)"
      using d by (intro fl_at_least rne_tiny tiny_gt_neg) simp
    then show ?thesis using fin(1) d tiny_pos by (simp add: js_0)
  qed
qed

lemma add_at_least:
  assumes "at_least c x" "at_least t y" "rne (c + t) = c + t" "- overflow_threshold < c + t"
  shows "at_least (c + t) (js_add x y)"
proof (cases x)
  case x: (Fin a)
  show ?thesis
  proof (cases y)
    case y: (Fin b)
    have "c + t \<le> val a + val b" using assms(1,2) x y by (simp add: at_least_def)
    then have "at_least (c + t) (fl (val a + val b))"
      by (intro fl_at_least assms(3,4))
    then show ?thesis by (simp add: x y)
  qed (use assms(2) x in \<open>simp_all add: at_least_def\<close>)
next
  case PosInf
  then show ?thesis using assms(2) by (cases y) (simp_all add: at_least_def)
qed (use assms(1) in \<open>simp_all add: at_least_def\<close>)

lemma rsi_loop_rising:
  "\<forall>j. i \<le> j \<and> j < i + n \<longrightarrow> val (close (ks ! (j - 1))) < val (close (ks ! j)) \<Longrightarrow>
   snd (rsi_loop ks i n (g, l)) = l"
proof (induction n arbitrary: i g l)
  case 0
  then show ?case by simp
next
  case (Suc n)
  have "val (close (ks ! (i - 1))) < val (close (ks ! i))" using Suc.prems by simp
  then have step: "js_gt (js_sub (Fin (close (ks ! i))) (Fin (close (ks ! (i - 1))))) (js 0)"
    by (rule sub_rising)
  have rest: "\<forall>j. i + 1 \<le> j \<and> j < (i + 1) + n \<longrightarrow>
      val (close (ks ! (j - 1))) < val (close (ks ! j))"
    using Suc.prems by simp
  show ?case using step Suc.IH [OF rest] by (simp add: Let_def)
qed

lemma rsi_loop_falling:
  assumes "\<forall>j. i \<le> j \<and> j < i + n \<longrightarrow> val (close (ks ! j)) < val (close (ks ! (j - 1)))"
    and "at_least (of_nat k * tiny) l" and "k + n \<le> 100"
  shows "fst (rsi_loop ks i n (g, l)) = g \<and>
         at_least (of_nat (k + n) * tiny) (snd (rsi_loop ks i n (g, l)))"
  using assms
proof (induction n arbitrary: i k l)
  case 0
  then show ?case by simp
next
  case (Suc n)
  define change where "change = js_sub (Fin (close (ks ! i))) (Fin (close (ks ! (i - 1))))"
  have "val (close (ks ! i)) < val (close (ks ! (i - 1)))" using Suc.prems(1) by simp
  then have step: "\<not> js_gt change (js 0)" "at_least tiny (Math_abs change)"
    unfolding change_def using sub_falling by simp_all
  have k1: "Suc k \<le> 100" using Suc.prems(3) by simp
  have e: "of_nat k * tiny + tiny = of_nat (Suc k) * tiny" by (simp add: algebra_simps)
  have "at_least (of_nat k * tiny + tiny) (js_add l (Math_abs change))"
  proof (rule add_at_least [OF Suc.prems(2) step(2)])
    show "rne (of_nat k * tiny + tiny) = of_nat k * tiny + tiny"
      unfolding e by (rule rne_tiny_mult [OF k1])
    have "0 \<le> of_nat k * tiny + tiny" using tiny_pos by simp
    then show "- overflow_threshold < of_nat k * tiny + tiny" using threshold_pos by linarith
  qed
  then have l': "at_least (of_nat (Suc k) * tiny) (js_add l (Math_abs change))"
    unfolding e .
  have rest: "\<forall>j. i + 1 \<le> j \<and> j < (i + 1) + n \<longrightarrow>
      val (close (ks ! j)) < val (close (ks ! (j - 1)))"
    using Suc.prems(1) by simp
  have b: "Suc k + n \<le> 100" using Suc.prems(3) by simp
  have unf: "rsi_loop ks i (Suc n) (g, l) =
      rsi_loop ks (i + 1) n (g, js_add l (Math_abs change))"
    using step(1) by (simp add: Let_def change_def)
  show ?case unfolding unf using Suc.IH [OF rest l' b] by simp
qed

lemmas num_simps = js_numeral js_0 js_1 fl_0

lemma fl_1: "fl 1 = Fin (dbl 1)"
  using js_1(1) by (simp add: js_def)

lemma fl_numeral: "numeral n \<le> (2::int) ^ 53 \<Longrightarrow> fl (numeral n) = Fin (dbl (numeral n))"
  using js_numeral(1) by (simp add: js_def)

lemma rsi_tail_zero:
  "js_div (Math_round (js_mul (js_sub (js 100) (js_div (js 100) (js_add (js 1) (Fin (dbl 0)))))
      (js 10))) (js 10) = js 0"
  by (simp add: num_simps fl_1 fl_numeral)

lemma calculateRSI_rising:
  assumes len: "length ks = 15"
    and inc: "sorted_wrt (\<lambda>a b. val a < val b) (map close ks)"
  shows "calculateRSI ks 14 = js 100"
proof -
  have adj: "\<forall>j. 1 \<le> j \<and> j < 1 + 14 \<longrightarrow> val (close (ks ! (j - 1))) < val (close (ks ! j))"
  proof (intro allI impI)
    fix j assume j: "1 \<le> j \<and> j < 1 + (14::nat)"
    have b: "j - 1 < j" "j < length (map close ks)" "j - 1 < length ks" "j < length ks"
      using j len by auto
    have "val (map close ks ! (j - 1)) < val (map close ks ! j)"
      using sorted_wrt_nth_less [OF inc b(1) b(2)] .
    then show "val (close (ks ! (j - 1))) < val (close (ks ! j))"
      by (simp only: nth_map [OF b(3)] nth_map [OF b(4)])
  qed
  obtain g l where gl: "rsi_loop ks 1 14 (js 0, js 0) = (g, l)"
    by (cases "rsi_loop ks 1 14 (js 0, js 0)")
  have l: "l = js 0" using rsi_loop_rising [OF adj, of "js 0" "js 0"] gl by simp
  have "js_eq (js_div (js 0) (js 14)) (js 0)" by (simp add: num_simps)
  then show ?thesis using gl len l by (simp add: calculateRSI_def)
qed

lemma calculateRSI_falling:
  assumes len: "length ks = 15"
    and dec: "sorted_wrt (\<lambda>a b. val a > val b) (map close ks)"
  shows "calculateRSI ks 14 = js 0"
proof -
  have adj: "\<forall>j. 1 \<le> j \<and> j < 1 + 14 \<longrightarrow> val (close (ks ! j)) < val (close (ks ! (j - 1)))"
  proof (intro allI impI)
    fix j assume j: "1 \<le> j \<and> j < 1 + (14::nat)"
    have b: "j - 1 < j" "j < length (map close ks)" "j - 1 < length ks" "j < length ks"
      using j len by auto
    have "val (map close ks ! (j - 1)) > val (map close ks ! j)"
      using sorted_wrt_nth_less [OF dec b(1) b(2)] .
    then show "val (close (ks ! j)) < val (close (ks ! (j - 1)))"
      by (simp only: nth_map [OF b(3)] nth_map [OF b(4)])
  qed
  obtain g l where gl: "rsi_loop ks 1 14 (js 0, js 0) = (g, l)"
    by (cases "rsi_loop ks 1 14 (js 0, js 0)")
  have start: "at_least (of_nat 0 * tiny) (js 0)" by (simp add: at_least_def js_0)
  have "fst (rsi_loop ks 1 14 (js 0, js 0)) = js 0 \<and>
      at_least (of_nat (0 + 14) * tiny) (snd (rsi_loop ks 1 14 (js 0, js 0)))"
    by (rule rsi_loop_falling [OF adj start]) simp
  then have g: "g = js 0" and l: "at_least (14 * tiny) l" using gl by simp_all
  have fourteen: "js 14 = Fin (dbl 14)" "val (dbl 14) = 14" by (simp_all add: js_numeral)
  have avgLoss: "at_least tiny (js_div l (js 14))"
  proof (cases l)
    case (Fin d)
    then have "tiny \<le> val d / 14" using l by (simp add: at_least_def)
    then have "at_least tiny (fl (val d / 14))"
      by (intro fl_at_least rne_tiny tiny_gt_neg)
    then show ?thesis by (simp add: Fin fourteen)
  next
    case PosInf
    then show ?thesis by (simp add: fourteen sign_inf_def at_least_def)
  qed (use l in \<open>simp_all add: at_least_def\<close>)
  have avgGain: "js_div (js 0) (js 14) = Fin (dbl 0)" by (simp add: num_simps)
  have ne: "\<not> js_eq (js_div l (js 14)) (js 0)"
    using avgLoss tiny_pos by (cases "js_div l (js 14)") (simp_all add: at_least_def js_0)
  have rs: "js_div (Fin (dbl 0)) (js_div l (js 14)) = Fin (dbl 0)"
    using avgLoss tiny_pos
    by (cases "js_div l (js 14)") (simp_all add: at_least_def js_0 fl_0)
  show ?thesis
    using gl len ne
    by (simp add: calculateRSI_def g avgGain rs rsi_tail_zero Let_def)
qed

lemma slice_last_length: "n \<le> length xs \<Longrightarrow> 0 < n \<Longrightarrow> length (slice_last n xs) = n"
  by (simp add: slice_last_def)

lemma sorted_wrt_slice_last: "sorted_wrt P xs \<Longrightarrow> sorted_wrt P (slice_last n xs)"
  by (simp add: slice_last_def sorted_wrt_drop)

lemma map_slice_last: "map f (slice_last n xs) = slice_last n (map f xs)"
  by (simp add: slice_last_def drop_map)

text \<open>
  Claim C4. \<open>analyzeKline\<close> hands \<open>calculateRSI\<close> the most recent 15 candles. When the
  sequence has at least 15 candles and its closing prices are strictly increasing, the RSI is
  100; when they are strictly decreasing, it is 0; and on fewer than 15 candles
  \<open>calculateRSI\<close> returns the neutral 50.
\<close>

theorem rsi_monotone_closes:
  "(15 \<le> length ks \<and> sorted_wrt (\<lambda>a b. val a < val b) (map close ks) \<longrightarrow>
      calculateRSI (slice_last 15 ks) 14 = js 100) \<and>
   (15 \<le> length ks \<and> sorted_wrt (\<lambda>a b. val a > val b) (map close ks) \<longrightarrow>
      calculateRSI (slice_last 15 ks) 14 = js 0) \<and>
   (length ks < 15 \<longrightarrow> calculateRSI ks 14 = js 50)"
proof (intro conjI impI)
  assume h: "15 \<le> length ks \<and> sorted_wrt (\<lambda>a b. val a < val b) (map close ks)"
  have "sorted_wrt (\<lambda>a b. val a < val b) (map close (slice_last 15 ks))"
    using h by (simp add: map_slice_last sorted_wrt_slice_last)
  then show "calculateRSI (slice_last 15 ks) 14 = js 100"
    using h by (intro calculateRSI_rising) (simp_all add: slice_last_length)
next
  assume h: "15 \<le> length ks \<and> sorted_wrt (\<lambda>a b. val a > val b) (map close ks)"
  have "sorted_wrt (\<lambda>a b. val a > val b) (map close (slice_last 15 ks))"
    using h by (simp add: map_slice_last sorted_wrt_slice_last)
  then show "calculateRSI (slice_last 15 ks) 14 = js 0"
    using h by (intro calculateRSI_falling) (simp_all add: slice_last_length)
next
  assume "length ks < 15"
  then show "calculateRSI ks 14 = js 50" by (simp add: calculateRSI_def)
qed

theorem rsi_monotone_closes_witness:
  "15 \<le> length rising16 \<and> sorted_wrt (\<lambda>a b. val a < val b) (map close rising16) \<and>
   calculateRSI (slice_last 15 rising16) 14 = js 100 \<and>
   15 \<le> length falling16 \<and> sorted_wrt (\<lambda>a b. val a > val b) (map close falling16) \<and>
   calculateRSI (slice_last 15 falling16) 14 = js 0 \<and>
   length (take 14 rising16) < 15 \<and> calculateRSI (take 14 rising16) 14 = js 50"
proof -
  have r: "15 \<le> length rising16 \<and> sorted_wrt (\<lambda>a b. val a < val b) (map close rising16)"
    by (simp add: rising16_def flat_candle_def js_numeral js_1)
  have f: "15 \<le> length falling16 \<and> sorted_wrt (\<lambda>a b. val a > val b) (map close falling16)"
    by (simp add: falling16_def flat_candle_def js_numeral js_1)
  have s: "length (take 14 rising16) < 15" by (simp add: rising16_def)
  show ?thesis
    using r f s rsi_monotone_closes [of rising16] rsi_monotone_closes [of falling16]
      rsi_monotone_closes [of "take 14 rising16"]
    by blast
qed












section \<open>Indicator engine: result of analyzeKline\<close>

lemma sum_close_foldl:
  "sum_close ks = foldl (\<lambda>sum x. js_add sum (Fin x)) (js 0) (map close ks)"
  by (simp add: sum_close_def foldl_map)

lemma analyzeKline_short: "length ks < 3 \<Longrightarrow> analyzeKline cfg (Some ks) = unknown_result"
  by (simp add: analyzeKline_def)


lemma analyzeKline_ma5:
  "3 \<le> length ks \<Longrightarrow>
   ma5 (analyzeKline cfg (Some ks)) =
     Some (round_hundredths (js_div (sum_close (slice_last 5 (slice_last 10 ks))) (js 5)))"
  by (simp add: analyzeKline_def Let_def case_prod_unfold round_hundredths_def)

lemma analyzeKline_ma10:
  "3 \<le> length ks \<Longrightarrow>
   ma10 (analyzeKline cfg (Some ks)) =
     Some (round_hundredths (js_div (sum_close (slice_last 10 ks)) (js 10)))"
  by (simp add: analyzeKline_def Let_def case_prod_unfold round_hundredths_def)









lemmas small_eval = js_numeral js_0 js_1 fl_0 fl_1 fl_numeral






text \<open>
  Claim C2, as amended. On at least 5 candles the \<open>ma5\<close> of the result is the mean of
  the last 5 closes as double arithmetic computes it (the sum accumulated from left to
  right, divided by 5), rounded to two decimals by \<open>Math.round(x * 100) / 100\<close>; on at
  least 10 candles the \<open>ma10\<close> is the mean of the 10 closes of the window, computed and
  rounded the same way.
\<close>

theorem moving_averages_rounded:
  "(5 \<le> length ks \<longrightarrow>
      ma5 (analyzeKline cfg (Some ks)) =
        Some (round_hundredths (double_mean (map close (slice_last 5 (slice_last 10 ks)))))) \<and>
   (10 \<le> length ks \<longrightarrow>
      ma10 (analyzeKline cfg (Some ks)) =
        Some (round_hundredths (double_mean (map close (slice_last 10 ks)))))"
proof (intro conjI impI)
  assume len: "5 \<le> length ks"
  have "length (slice_last 5 (slice_last 10 ks)) = 5"
    using len by (simp add: slice_last_def)
  then have "double_mean (map close (slice_last 5 (slice_last 10 ks))) =
      js_div (sum_close (slice_last 5 (slice_last 10 ks))) (js 5)"
    by (simp add: double_mean_def sum_close_foldl)
  moreover have "3 \<le> length ks" using len by simp
  ultimately show "ma5 (analyzeKline cfg (Some ks)) =
      Some (round_hundredths (double_mean (map close (slice_last 5 (slice_last 10 ks)))))"
    by (simp only: analyzeKline_ma5)
next
  assume len: "10 \<le> length ks"
  have "length (slice_last 10 ks) = 10" using len by (simp add: slice_last_def)
  then have "double_mean (map close (slice_last 10 ks)) =
      js_div (sum_close (slice_last 10 ks)) (js 10)"
    by (simp add: double_mean_def sum_close_foldl)
  moreover have "3 \<le> length ks" using len by simp
  ultimately show "ma10 (analyzeKline cfg (Some ks)) =
      Some (round_hundredths (double_mean (map close (slice_last 10 ks))))"
    by (simp only: analyzeKline_ma10)
qed

lemma ten_uneven_ma5:
  "round_hundredths (double_mean (map close (slice_last 5 (slice_last 10 ten_uneven)))) =
     js (51 / 50)"
  apply (simp add: ten_uneven_def flat_candle_def slice_last_def double_mean_def
      round_hundredths_def)
  apply (simp add: eval_num)
  done

lemma ten_uneven_ma10:
  "round_hundredths (double_mean (map close (slice_last 10 ten_uneven))) = js (101 / 100)"
  apply (simp add: ten_uneven_def flat_candle_def slice_last_def double_mean_def
      round_hundredths_def)
  apply (simp add: eval_num)
  done

theorem moving_averages_rounded_witness:
  "5 \<le> length ten_uneven \<and> 10 \<le> length ten_uneven \<and>
   ma5 (analyzeKline default_config (Some ten_uneven)) = Some (js (51 / 50)) \<and>
   ma10 (analyzeKline default_config (Some ten_uneven)) = Some (js (101 / 100))"
proof -
  have a: "5 \<le> length ten_uneven" "10 \<le> length ten_uneven" by (simp_all add: ten_uneven_def)
  show ?thesis using a moving_averages_rounded [of ten_uneven default_config]
    by (simp add: ten_uneven_ma5 ten_uneven_ma10)
qed

text \<open>
  The claim as stated fails twice. On three candles closing at 10 the code divides the sums
  by 5 and by 10, not by the 3 candles of the window. On nine candles closing at 1 and a
  tenth closing at 1.125 the mean of the last five closes is 1.025, and the result carries
  it rounded to two decimals: 1.02, the computed \<open>102.49999999999999\<close> being rounded down.
\<close>

theorem moving_averages_counterexample:
  "3 \<le> length three_flat \<and>
   ma5 (analyzeKline default_config (Some three_flat)) = Some (js 6) \<and>
   ma10 (analyzeKline default_config (Some three_flat)) = Some (js 3) \<and>
   arithmetic_mean (map (\<lambda>k. val (close k))
     (slice_last (min 5 (length (slice_last 10 three_flat))) (slice_last 10 three_flat))) = 10 \<and>
   arithmetic_mean (map (\<lambda>k. val (close k)) (slice_last 10 three_flat)) = 10 \<and>
   \<not> num_is (js 6) 10 \<and> \<not> num_is (js 3) 10 \<and>
   3 \<le> length ten_uneven \<and>
   ma5 (analyzeKline default_config (Some ten_uneven)) = Some (js (51 / 50)) \<and>
   arithmetic_mean (map (\<lambda>k. val (close k))
     (slice_last (min 5 (length (slice_last 10 ten_uneven))) (slice_last 10 ten_uneven)))
     = 41 / 40 \<and>
   \<not> num_is (js (51 / 50)) (41 / 40)"
proof -
  have l3: "3 \<le> length three_flat" by (simp add: three_flat_def)
  have l10: "3 \<le> length ten_uneven" by (simp add: ten_uneven_def)
  have a: "ma5 (analyzeKline default_config (Some three_flat)) = Some (js 6)"
    unfolding analyzeKline_ma5 [OF l3]
    by (simp add: three_flat_def flat_candle_def slice_last_def sum_close_def
        round_hundredths_def small_eval)
  have b: "ma10 (analyzeKline default_config (Some three_flat)) = Some (js 3)"
    unfolding analyzeKline_ma10 [OF l3]
    by (simp add: three_flat_def flat_candle_def slice_last_def sum_close_def
        round_hundredths_def small_eval)
  have c: "arithmetic_mean (map (\<lambda>k. val (close k))
     (slice_last (min 5 (length (slice_last 10 three_flat))) (slice_last 10 three_flat))) = 10"
    "arithmetic_mean (map (\<lambda>k. val (close k)) (slice_last 10 three_flat)) = 10"
    by (simp_all add: three_flat_def flat_candle_def slice_last_def arithmetic_mean_def
        small_eval)
  have d: "\<not> num_is (js 6) 10" "\<not> num_is (js 3) 10" by (simp_all add: num_is_def small_eval)
  have e: "ma5 (analyzeKline default_config (Some ten_uneven)) = Some (js (51 / 50))"
    unfolding analyzeKline_ma5 [OF l10]
    using ten_uneven_ma5 by (simp add: double_mean_def sum_close_foldl ten_uneven_def slice_last_def)
  have f: "arithmetic_mean (map (\<lambda>k. val (close k))
     (slice_last (min 5 (length (slice_last 10 ten_uneven))) (slice_last 10 ten_uneven)))
     = 41 / 40"
    apply (simp add: ten_uneven_def flat_candle_def slice_last_def arithmetic_mean_def)
    apply (simp add: eval_num)
    done
  have g: "\<not> num_is (js (51 / 50)) (41 / 40)" by (simp add: num_is_def eval_num)
  show ?thesis using l3 l10 a b c d e f g by blast
qed

section \<open>Signal aggregator\<close>

lemma unusual_volume_iff:
  "UnusualVolume \<in> set (generateMarketSignals pd ka) \<longleftrightarrow>
   list_ex (\<lambda>a. truthy (volumeSpike a)) (map snd ka)"
  by (simp add: generateMarketSignals_def Let_def Object_values_def)

text \<open>
  Claim C10. On fewer than 3 candles \<open>analyzeKline\<close> returns the object with \<open>trend\<close>,
  \<open>strength\<close> and \<open>rsi\<close> only: the other six fields are absent. Its absent
  \<open>volumeSpike\<close> is falsy, and a mapping with such a timeframe has the volume signal exactly
  when the mapping without that timeframe has it.
\<close>

theorem short_sequence_result:
  "length ks < 3 \<Longrightarrow>
   analyzeKline cfg (Some ks) =
     \<lparr>trend = Unknown, strength = js 0, ma5 = None, ma10 = None, priceChange = None,
      volumeSpike = None, currentVolume = None, avgVolume = None, rsi = js 50\<rparr> \<and>
   \<not> truthy (volumeSpike (analyzeKline cfg (Some ks))) \<and>
   (UnusualVolume \<in> set (generateMarketSignals pd
        (before @ (tf, analyzeKline cfg (Some ks)) # after)) \<longleftrightarrow>
    UnusualVolume \<in> set (generateMarketSignals pd (before @ after)))"
  by (simp add: unusual_volume_iff analyzeKline_short unknown_result_def truthy_def)

theorem short_sequence_result_witness:
  "length ([] :: candle list) < 3 \<and>
   analyzeKline default_config (Some []) =
     \<lparr>trend = Unknown, strength = js 0, ma5 = None, ma10 = None, priceChange = None,
      volumeSpike = None, currentVolume = None, avgVolume = None, rsi = js 50\<rparr> \<and>
   UnusualVolume \<notin> set (generateMarketSignals quiet_price
      [(''5m'', analyzeKline default_config (Some []))])"
proof -
  have e: "UnusualVolume \<notin> set (generateMarketSignals quiet_price [])"
    by (simp add: unusual_volume_iff)
  have l: "length ([] :: candle list) < 3" by simp
  note inst = short_sequence_result [OF l, of default_config quiet_price "[]" "''5m''" "[]"]
  have r: "analyzeKline default_config (Some []) =
     \<lparr>trend = Unknown, strength = js 0, ma5 = None, ma10 = None, priceChange = None,
      volumeSpike = None, currentVolume = None, avgVolume = None, rsi = js 50\<rparr>"
    using inst by blast
  have v: "UnusualVolume \<notin> set (generateMarketSignals quiet_price
      [(''5m'', analyzeKline default_config (Some []))])"
    using inst e unfolding append_Nil by blast
  show ?thesis using l r v by blast
qed

lemma count_trend_map:
  "length (filter (\<lambda>t. t = c) (map trend (map snd ka))) = count_trend c ka"
  by (simp add: count_trend_def filter_map comp_def)

lemma generateMarketSignals_parts:
  "generateMarketSignals pd ka =
     [if 3 \<le> count_trend Bullish ka then MultiBullish
      else if 3 \<le> count_trend Bearish ka then MultiBearish
      else MixedSignals] @
     (if js_gt (computed_mean_rsi ka) (js 70) then [RsiOverbought]
      else if js_lt (computed_mean_rsi ka) (js 30) then [RsiOversold] else []) @
     (if js_gt (Math_abs (Fin (change24h pd))) (js 5) then [HighVolatility (change24h pd)]
      else []) @
     (if list_ex (\<lambda>a. truthy (volumeSpike a)) (map snd ka) then [UnusualVolume] else [])"
  unfolding generateMarketSignals_def Let_def Object_values_def count_trend_map
    computed_mean_rsi_def
  by (simp add: comp_def)

text \<open>
  Claim C5. On a nonempty mapping the output holds exactly one consensus signal: the bullish
  one if at least 3 timeframes are bullish, otherwise the bearish one if at least 3 are
  bearish, otherwise the mixed one; and the output has between 1 and 4 signals. The output
  is a function of the two arguments, so equal inputs give equal outputs.
\<close>

theorem consensus_signal:
  "ka \<noteq> [] \<Longrightarrow>
   filter is_consensus (generateMarketSignals pd ka) =
     [if 3 \<le> count_trend Bullish ka then MultiBullish
      else if 3 \<le> count_trend Bearish ka then MultiBearish
      else MixedSignals] \<and>
   1 \<le> length (generateMarketSignals pd ka) \<and> length (generateMarketSignals pd ka) \<le> 4"
  by (simp add: generateMarketSignals_parts is_consensus_def)

theorem consensus_signal_witness:
  "three_bullish \<noteq> [] \<and>
   filter is_consensus (generateMarketSignals quiet_price three_bullish) = [MultiBullish] \<and>
   with_rsis [50] \<noteq> [] \<and>
   filter is_consensus (generateMarketSignals quiet_price (with_rsis [50])) = [MixedSignals] \<and>
   1 \<le> length (generateMarketSignals quiet_price (with_rsis [50])) \<and>
   length (generateMarketSignals quiet_price (with_rsis [50])) \<le> 4"
proof -
  have ne: "with_rsis [50] \<noteq> []" "three_bullish \<noteq> []"
    by (simp_all add: with_rsis_def three_bullish_def)
  have c: "count_trend Bullish (with_rsis [50]) = 0" "count_trend Bearish (with_rsis [50]) = 0"
    by (simp_all add: count_trend_def with_rsis_def unknown_result_def)
  have b: "count_trend Bullish three_bullish = 3"
    by (simp add: count_trend_def three_bullish_def unknown_result_def)
  show ?thesis
    using ne consensus_signal [OF ne(1), of quiet_price]
      consensus_signal [OF ne(2), of quiet_price]
    by (simp add: c b)
qed

lemma lt_30_not_gt_70: "js_lt m (js 30) \<Longrightarrow> \<not> js_gt m (js 70)"
  by (cases m) (simp_all add: js_lt_def js_numeral)

text \<open>
  Claim C6, as amended. On a nonempty mapping the overbought signal is emitted exactly when
  the mean of the rsi values as double arithmetic computes it (the sum accumulated from
  left to right, divided by the number of timeframes) is above 70, the oversold signal
  exactly when that computed mean is below 30, and neither when it lies in [30,70]; a
  computed mean of 75 gives the overbought signal, a computed mean of 50 neither.
\<close>

theorem rsi_signal:
  "ka \<noteq> [] \<Longrightarrow>
   (RsiOverbought \<in> set (generateMarketSignals pd ka) \<longleftrightarrow>
      js_gt (computed_mean_rsi ka) (js 70)) \<and>
   (RsiOversold \<in> set (generateMarketSignals pd ka) \<longleftrightarrow>
      js_lt (computed_mean_rsi ka) (js 30)) \<and>
   (in_range 30 70 (computed_mean_rsi ka) \<longrightarrow>
      RsiOverbought \<notin> set (generateMarketSignals pd ka) \<and>
      RsiOversold \<notin> set (generateMarketSignals pd ka)) \<and>
   (computed_mean_rsi ka = js 75 \<longrightarrow>
      RsiOverbought \<in> set (generateMarketSignals pd ka) \<and>
      RsiOversold \<notin> set (generateMarketSignals pd ka)) \<and>
   (computed_mean_rsi ka = js 50 \<longrightarrow>
      RsiOverbought \<notin> set (generateMarketSignals pd ka) \<and>
      RsiOversold \<notin> set (generateMarketSignals pd ka))"
proof -
  define m where "m = computed_mean_rsi ka"
  have a: "RsiOverbought \<in> set (generateMarketSignals pd ka) \<longleftrightarrow> js_gt m (js 70)"
    by (simp add: generateMarketSignals_parts m_def)
  have b: "RsiOversold \<in> set (generateMarketSignals pd ka) \<longleftrightarrow> js_lt m (js 30)"
    using lt_30_not_gt_70 [of m] by (auto simp add: generateMarketSignals_parts m_def)
  have c: "in_range 30 70 m \<longrightarrow> \<not> js_gt m (js 70) \<and> \<not> js_lt m (js 30)"
    by (cases m) (simp_all add: in_range_def js_lt_def js_numeral)
  have d: "m = js 75 \<longrightarrow> js_gt m (js 70) \<and> \<not> js_lt m (js 30)"
    by (simp add: js_lt_def js_numeral)
  have e: "m = js 50 \<longrightarrow> \<not> js_gt m (js 70) \<and> \<not> js_lt m (js 30)"
    by (simp add: js_lt_def js_numeral)
  show ?thesis unfolding m_def [symmetric] using a b c d e by blast
qed

lemma mean_75: "computed_mean_rsi (with_rsis [80, 70, 75, 75]) = js 75"
  by (simp add: computed_mean_rsi_def with_rsis_def unknown_result_def small_eval)

lemma mean_50: "computed_mean_rsi (with_rsis [50, 40, 60, 50]) = js 50"
  by (simp add: computed_mean_rsi_def with_rsis_def unknown_result_def small_eval)

theorem rsi_signal_witness:
  "with_rsis [80, 70, 75, 75] \<noteq> [] \<and> computed_mean_rsi (with_rsis [80, 70, 75, 75]) = js 75 \<and>
   RsiOverbought \<in> set (generateMarketSignals quiet_price (with_rsis [80, 70, 75, 75])) \<and>
   RsiOversold \<notin> set (generateMarketSignals quiet_price (with_rsis [80, 70, 75, 75])) \<and>
   with_rsis [50, 40, 60, 50] \<noteq> [] \<and> computed_mean_rsi (with_rsis [50, 40, 60, 50]) = js 50 \<and>
   in_range 30 70 (computed_mean_rsi (with_rsis [50, 40, 60, 50])) \<and>
   RsiOverbought \<notin> set (generateMarketSignals quiet_price (with_rsis [50, 40, 60, 50])) \<and>
   RsiOversold \<notin> set (generateMarketSignals quiet_price (with_rsis [50, 40, 60, 50]))"
proof -
  have ne: "with_rsis [80, 70, 75, 75] \<noteq> []" "with_rsis [50, 40, 60, 50] \<noteq> []"
    by (simp_all add: with_rsis_def)
  have r: "in_range 30 70 (computed_mean_rsi (with_rsis [50, 40, 60, 50]))"
    by (simp add: mean_50 in_range_def js_numeral)
  note t1 = rsi_signal [OF ne(1), of quiet_price]
  note t2 = rsi_signal [OF ne(2), of quiet_price]
  have a: "RsiOverbought \<in> set (generateMarketSignals quiet_price (with_rsis [80, 70, 75, 75]))"
    "RsiOversold \<notin> set (generateMarketSignals quiet_price (with_rsis [80, 70, 75, 75]))"
    using t1 mean_75 by blast+
  have b: "RsiOverbought \<notin> set (generateMarketSignals quiet_price (with_rsis [50, 40, 60, 50]))"
    "RsiOversold \<notin> set (generateMarketSignals quiet_price (with_rsis [50, 40, 60, 50]))"
    using t2 mean_50 by blast+
  show ?thesis using ne mean_75 mean_50 r a b by (intro conjI)
qed

lemma mean_boundary:
  "computed_mean_rsi (with_rsis [50, 91, 611 / 10, 779 / 10]) = js 70"
  apply (simp add: computed_mean_rsi_def with_rsis_def unknown_result_def)
  apply (simp add: eval_num)
  done

lemma exact_mean_boundary:
  "70 < arithmetic_mean [val (dbl 50), val (dbl 91), val (dbl (611 / 10)), val (dbl (779 / 10))]"
  apply (simp add: arithmetic_mean_def)
  apply (simp add: eval_num)
  done

text \<open>
  The claim as stated, about the arithmetic mean, fails at the threshold. The four rsi values
  50, 91, 61.1 and 77.9 are doubles whose exact mean is above 70; the sum computed in
  double arithmetic is 280 and the computed mean is 70, so no overbought signal is emitted.
\<close>

theorem rsi_signal_counterexample:
  "map (\<lambda>e. rsi (snd e)) (with_rsis [50, 91, 611 / 10, 779 / 10]) =
     [Fin (dbl 50), Fin (dbl 91), Fin (dbl (611 / 10)), Fin (dbl (779 / 10))] \<and>
   70 < arithmetic_mean [val (dbl 50), val (dbl 91), val (dbl (611 / 10)), val (dbl (779 / 10))] \<and>
   RsiOverbought \<notin> set (generateMarketSignals quiet_price
      (with_rsis [50, 91, 611 / 10, 779 / 10]))"
proof -
  have a: "map (\<lambda>e. rsi (snd e)) (with_rsis [50, 91, 611 / 10, 779 / 10]) =
     [Fin (dbl 50), Fin (dbl 91), Fin (dbl (611 / 10)), Fin (dbl (779 / 10))]"
    apply (simp add: with_rsis_def)
    apply (simp add: eval_num)
    done
  have b: "RsiOverbought \<notin> set (generateMarketSignals quiet_price
      (with_rsis [50, 91, 611 / 10, 779 / 10]))"
    by (simp add: generateMarketSignals_parts mean_boundary js_numeral)
  show ?thesis using a exact_mean_boundary b by (intro conjI)
qed

section \<open>Chain and risk heuristics\<close>

lemma char_toLowerCase_not_upper: "\<not> char_between CHR ''A'' CHR ''Z'' (char_toLowerCase c)"
  by (simp add: char_toLowerCase_def char_between_def)

lemma str_includes_subset: "str_includes s t \<Longrightarrow> set t \<subseteq> set s"
proof (induction s)
  case Nil
  then show ?case by simp
next
  case (Cons c cs)
  then show ?case using set_mono_prefix [of t "c # cs"] by auto
qed

lemma lower_text_never_has_upper:
  "char_between CHR ''A'' CHR ''Z'' u \<Longrightarrow> u \<in> set keyword \<Longrightarrow>
   \<not> str_includes (toLowerCase text) keyword"
proof
  assume u: "char_between CHR ''A'' CHR ''Z'' u" "u \<in> set keyword"
    and "str_includes (toLowerCase text) keyword"
  then have "u \<in> set (toLowerCase text)" using str_includes_subset by blast
  then obtain c where "u = char_toLowerCase c" by (auto simp add: toLowerCase_def)
  then show False using u(1) char_toLowerCase_not_upper by simp
qed

lemma keyword_loop_count:
  "keyword_loop lt d ks s = s + d * int (length (filter (str_includes lt) ks))"
  by (induction ks arbitrary: s) (simp_all add: algebra_simps)

text \<open>
  Claim C8 on the code. \<open>assessRisk\<close> searches the lower-cased text for each keyword as it
  is written in the list, and the keyword \<open>LP locked\<close> has two capital letters: no
  lower-cased text contains it. The text \<open>LP locked\<close> scores 0 and is rated MEDIUM, where
  the claim has a score of -1 and LOW.
\<close>

theorem lp_locked_never_matches:
  "(\<forall>text. \<not> str_includes (toLowerCase text) ''LP locked'') \<and>
   ''LP locked'' \<in> set positiveKeywords \<and>
   riskScore ''LP locked'' = 0 \<and> assessRisk ''LP locked'' = ''MEDIUM''"
proof -
  have a: "\<not> str_includes (toLowerCase t) ''LP locked''" for t
    by (rule lower_text_never_has_upper [of "CHR ''L''"]) (simp_all add: char_between_def)
  have b: "''LP locked'' \<in> set positiveKeywords" by (simp add: positiveKeywords_def)
  have c: "riskScore ''LP locked'' = 0" by code_simp
  have d: "assessRisk ''LP locked'' = ''MEDIUM''" by (simp add: assessRisk_def c riskLevel_def)
  show ?thesis using a b c d by blast
qed

text \<open>
  Claim C7. The level is CRITICAL from a score of 4, HIGH from 2, MEDIUM from 0 and LOW
  below; the score is twice the number of high-risk keywords found in the lower-cased text
  minus the number of positive keywords found there. The first text of the claim is rated
  HIGH or CRITICAL, the second LOW.
\<close>

theorem risk_levels:
  "assessRisk text =
     (if riskScore text \<ge> 4 then ''CRITICAL''
      else if riskScore text \<ge> 2 then ''HIGH''
      else if riskScore text \<ge> 0 then ''MEDIUM''
      else ''LOW'') \<and>
   riskScore text =
     2 * int (length (filter (str_includes (toLowerCase text)) highRiskKeywords)) -
     int (length (filter (str_includes (toLowerCase text)) positiveKeywords)) \<and>
   assessRisk ''warning: possible rug pull, unaudited'' \<in> {''HIGH'', ''CRITICAL''} \<and>
   assessRisk ''audited, LP locked, solid team'' = ''LOW''"
proof -
  have a: "riskScore ''warning: possible rug pull, unaudited'' = 3" by code_simp
  have b: "riskScore ''audited, LP locked, solid team'' = - 2" by code_simp
  have c: "assessRisk text =
     (if riskScore text \<ge> 4 then ''CRITICAL''
      else if riskScore text \<ge> 2 then ''HIGH''
      else if riskScore text \<ge> 0 then ''MEDIUM''
      else ''LOW'')"
    by (simp add: assessRisk_def riskLevel_def)
  have d: "riskScore text =
     2 * int (length (filter (str_includes (toLowerCase text)) highRiskKeywords)) -
     int (length (filter (str_includes (toLowerCase text)) positiveKeywords))"
    by (simp add: riskScore_def Let_def keyword_loop_count)
  have e: "assessRisk ''warning: possible rug pull, unaudited'' \<in> {''HIGH'', ''CRITICAL''}"
    by (simp add: assessRisk_def riskLevel_def a)
  have f: "assessRisk ''audited, LP locked, solid team'' = ''LOW''"
    by (simp add: assessRisk_def riskLevel_def b)
  show ?thesis using c d e f by blast
qed

theorem risk_levels_witness:
  "riskScore ''scam honeypot'' = 4 \<and> assessRisk ''scam honeypot'' = ''CRITICAL'' \<and>
   riskScore ''warning: possible rug pull, unaudited'' = 3 \<and>
   assessRisk ''warning: possible rug pull, unaudited'' = ''HIGH''"
proof -
  have a: "riskScore ''scam honeypot'' = 4" by code_simp
  have b: "riskScore ''warning: possible rug pull, unaudited'' = 3" by code_simp
  show ?thesis
    using risk_levels [of "''scam honeypot''"]
      risk_levels [of "''warning: possible rug pull, unaudited''"]
    by (simp add: a b)
qed

section \<open>Contract-address extraction and chain\<close>

lemma match_global_skip:
  assumes "\<forall>j. i \<le> j \<and> j < k \<longrightarrow> pattern (prev_char s j) (drop j s) = None"
    and "i \<le> k" and "k \<le> length s"
  shows "match_global pattern (prev_char s i) (drop i s) =
         match_global pattern (prev_char s k) (drop k s)"
  using assms
proof (induction "k - i" arbitrary: i)
  case 0
  then show ?case by simp
next
  case (Suc n)
  then have lt: "i < k" "i < length s" by auto
  have d: "drop i s = s ! i # drop (Suc i) s"
    using lt(2) by (simp add: Cons_nth_drop_Suc)
  have none: "pattern (prev_char s i) (s ! i # drop (Suc i) s) = None"
    using Suc.prems(1) lt(1) d by (metis le_refl)
  have p: "prev_char s (Suc i) = Some (s ! i)" by (simp add: prev_char_def)
  have step: "match_global pattern (prev_char s i) (drop i s) =
      match_global pattern (prev_char s (Suc i)) (drop (Suc i) s)"
    unfolding d p by (simp add: none)
  have "match_global pattern (prev_char s (Suc i)) (drop (Suc i) s) =
      match_global pattern (prev_char s k) (drop k s)"
  proof (rule Suc.hyps(1))
    show "n = k - Suc i" using Suc.hyps(2) by simp
    show "\<forall>j. Suc i \<le> j \<and> j < k \<longrightarrow> pattern (prev_char s j) (drop j s) = None"
      using Suc.prems(1) by simp
    show "Suc i \<le> k" using lt(1) by simp
    show "k \<le> length s" by (rule Suc.prems(3))
  qed
  then show ?case using step by simp
qed

lemma match_global_hit:
  assumes "pattern (prev_char s i) (drop i s) = Some n" and "0 < n"
    and "i + n \<le> length s"
  shows "match_global pattern (prev_char s i) (drop i s) =
         take n (drop i s) # match_global pattern (prev_char s (i + n)) (drop (i + n) s)"
proof -
  have lt: "i < length s" using assms(2,3) by simp
  have d: "drop i s = s ! i # drop (Suc i) s"
    using lt by (simp add: Cons_nth_drop_Suc)
  have nth: "drop i s ! (n - 1) = s ! (i + n - 1)"
  proof -
    have "drop i s ! (n - 1) = s ! (i + (n - 1))" using lt by (intro nth_drop) simp
    then show ?thesis using assms(2) by simp
  qed
  have p: "prev_char s (i + n) = Some (drop i s ! (n - 1))"
    unfolding prev_char_def nth using assms(2) by simp
  have dd: "drop n (drop i s) = drop (i + n) s" by (simp add: add.commute)
  have "match_global pattern (prev_char s i) (s ! i # drop (Suc i) s) =
      take n (s ! i # drop (Suc i) s) #
      match_global pattern (Some ((s ! i # drop (Suc i) s) ! (n - 1)))
        (drop n (s ! i # drop (Suc i) s))"
    using assms(1,2) unfolding d by simp
  then show ?thesis unfolding d [symmetric] p dd .
qed

lemma match_evm_Nil: "match_evm p [] = None"
  by (simp add: match_evm_def)

lemma match_base58_Nil: "match_base58 p [] = None"
  by (simp add: match_base58_def Let_def)

lemma match_global_none:
  assumes "\<forall>j. i \<le> j \<and> j < length s \<longrightarrow> pattern (prev_char s j) (drop j s) = None"
    and "i \<le> length s" and "\<And>p. pattern p [] = None"
  shows "match_global pattern (prev_char s i) (drop i s) = []"
proof -
  have "match_global pattern (prev_char s i) (drop i s) =
      match_global pattern (prev_char s (length s)) (drop (length s) s)"
    using assms(1,2) by (intro match_global_skip) auto
  then show ?thesis by (simp add: assms(3))
qed

lemma hex_sample: "list_all is_hex_char (take 40 (drop 2 sample_address))"
  by (simp add: sample_address_def is_hex_char_def char_between_def)

lemma match_evm_at_address:
  assumes "word_boundary p (Some CHR ''0'')" and "post = [] \<or> \<not> is_word_char (hd post)"
  shows "match_evm p (sample_address @ post) = Some 42"
proof -
  have len: "length sample_address = 42" by (simp add: sample_address_def)
  have f: "first_char (sample_address @ post) = Some CHR ''0''"
    by (simp add: sample_address_def first_char_def)
  have pre: "prefix ''0x'' (sample_address @ post)" by (simp add: sample_address_def)
  have hx: "take 40 (drop 2 (sample_address @ post)) = take 40 (drop 2 sample_address)"
    by (simp add: len)
  have l: "(sample_address @ post) ! 41 = CHR ''1''"
    by (simp add: nth_append len) (simp add: sample_address_def)
  have w1: "is_word_char CHR ''1''" by (simp add: is_word_char_def char_between_def)
  have b: "word_boundary (Some CHR ''1'') (first_char (drop 42 (sample_address @ post)))"
    using assms(2) w1 by (cases post) (simp_all add: len word_boundary_def first_char_def)
  show ?thesis
    unfolding match_evm_def using assms(1) f pre hex_sample l b len by simp
qed

lemma match_base58_at_address: "match_base58 p (sample_address @ post) = None"
proof -
  have "\<not> is_base58_char CHR ''0''" by (simp add: is_base58_char_def char_between_def)
  then have "takeWhile is_base58_char (sample_address @ post) = []"
    by (simp add: sample_address_def)
  then show ?thesis by (simp add: match_base58_def Let_def)
qed

lemma extract_single_address:
  assumes split: "input = pre @ sample_address @ post"
    and left: "pre = [] \<or> \<not> is_word_char (last pre)"
    and right: "post = [] \<or> \<not> is_word_char (hd post)"
    and others: "\<forall>j. j \<le> length input \<and> j \<noteq> length pre \<longrightarrow> no_match_at input j"
  shows "extractContractAddress input = [sample_address]"
proof -
  define k where "k = length pre"
  have len: "length sample_address = 42" by (simp add: sample_address_def)
  have klen: "k + 42 \<le> length input" by (simp add: split k_def len)
  have dk: "drop k input = sample_address @ post" by (simp add: split k_def)
  have tk: "take 42 (drop k input) = sample_address" by (simp add: dk len)
  have w0: "is_word_char CHR ''0''" by (simp add: is_word_char_def char_between_def)
  have pk: "word_boundary (prev_char input k) (Some CHR ''0'')"
  proof (cases "pre = []")
    case True
    then show ?thesis by (simp add: prev_char_def k_def word_boundary_def w0)
  next
    case False
    then have "input ! (k - 1) = last pre"
      by (simp add: split k_def nth_append last_conv_nth)
    then show ?thesis using False left by (simp add: prev_char_def k_def word_boundary_def w0)
  qed
  have evm_k: "match_evm (prev_char input k) (drop k input) = Some 42"
    unfolding dk by (rule match_evm_at_address [OF pk right])
  have b58_k: "match_base58 (prev_char input k) (drop k input) = None"
    unfolding dk by (rule match_base58_at_address)
  have e1: "match_global match_evm (prev_char input 0) (drop 0 input) =
      match_global match_evm (prev_char input k) (drop k input)"
    using others klen by (intro match_global_skip) (auto simp add: no_match_at_def k_def)
  have e2: "match_global match_evm (prev_char input k) (drop k input) =
      sample_address # match_global match_evm (prev_char input (k + 42)) (drop (k + 42) input)"
    using match_global_hit [of match_evm input k 42, OF evm_k _ klen] by (simp add: tk)
  have e3: "match_global match_evm (prev_char input (k + 42)) (drop (k + 42) input) = []"
    using others klen
    by (intro match_global_none) (auto simp add: no_match_at_def k_def match_evm_Nil)
  have evm: "match_global match_evm None input = [sample_address]"
    using e1 e2 e3 by (simp add: prev_char_def)
  have "match_global match_base58 (prev_char input 0) (drop 0 input) = []"
  proof (rule match_global_none)
    show "\<forall>j. 0 \<le> j \<and> j < length input \<longrightarrow> match_base58 (prev_char input j) (drop j input) = None"
    proof (intro allI impI)
      fix j assume j: "0 \<le> j \<and> j < length input"
      show "match_base58 (prev_char input j) (drop j input) = None"
      proof (cases "j = k")
        case True
        then show ?thesis using b58_k by simp
      next
        case False
        then show ?thesis using others j by (simp add: no_match_at_def k_def)
      qed
    qed
  qed (simp_all add: match_base58_Nil)
  then have b58: "match_global match_base58 None input = []" by (simp add: prev_char_def)
  show ?thesis by (simp add: extractContractAddress_def evm b58 Set_add_def)
qed

lemma all_positions_list:
  "(\<forall>j. j \<le> n \<and> j \<noteq> k \<longrightarrow> P j) \<longleftrightarrow> list_all (\<lambda>j. j = k \<or> P j) [0..<Suc n]"
proof -
  have "set [0..<Suc n] = {j. j \<le> n}" by auto
  then show ?thesis unfolding list_all_iff by blast
qed

text \<open>
  Claim C1 on the code. Take a text that contains the address as a token (a non-word
  character or an end of the text on each side) and in which neither pattern matches at
  any other position. The extraction returns exactly that address, as the claim says. But
  the address has 42 characters, so the first test of \<open>detectChain\<close>,
  \<open>ca.length > 40\<close>, holds: the chain is SOL whatever the text says, where the claim has
  ETH.
\<close>

theorem evm_address_classified_sol:
  "(input = pre @ sample_address @ post \<and>
    (pre = [] \<or> \<not> is_word_char (last pre)) \<and>
    (post = [] \<or> \<not> is_word_char (hd post)) \<and>
    (\<forall>j. j \<le> length input \<and> j \<noteq> length pre \<longrightarrow> no_match_at input j) \<longrightarrow>
    extractContractAddress input = [sample_address]) \<and>
   detectChain input sample_address = ''SOL''"
proof (intro conjI impI)
  assume "input = pre @ sample_address @ post \<and>
    (pre = [] \<or> \<not> is_word_char (last pre)) \<and>
    (post = [] \<or> \<not> is_word_char (hd post)) \<and>
    (\<forall>j. j \<le> length input \<and> j \<noteq> length pre \<longrightarrow> no_match_at input j)"
  then have h: "input = pre @ sample_address @ post"
      "pre = [] \<or> \<not> is_word_char (last pre)"
      "post = [] \<or> \<not> is_word_char (hd post)"
      "\<forall>j. j \<le> length input \<and> j \<noteq> length pre \<longrightarrow> no_match_at input j"
    by blast+
  show "extractContractAddress input = [sample_address]"
    by (rule extract_single_address [OF h])
next
  show "detectChain input sample_address = ''SOL''"
    by (simp add: detectChain_def Let_def sample_address_def)
qed

theorem evm_address_classified_sol_witness:
  "tagged_text = ''CA: '' @ sample_address @ '' on ethereum'' \<and>
   \<not> is_word_char (last ''CA: '') \<and> \<not> is_word_char (hd '' on ethereum'') \<and>
   list_all (\<lambda>j. j = length ''CA: '' \<or> no_match_at tagged_text j)
     [0..<Suc (length tagged_text)] \<and>
   extractContractAddress tagged_text = [sample_address] \<and>
   detectChain tagged_text sample_address = ''SOL''"
proof -
  have a: "tagged_text = ''CA: '' @ sample_address @ '' on ethereum''"
    by (simp add: tagged_text_def)
  have b: "\<not> is_word_char (last ''CA: '')" "\<not> is_word_char (hd '' on ethereum'')"
    by (simp_all add: is_word_char_def char_between_def)
  have c: "list_all (\<lambda>j. j = length ''CA: '' \<or> no_match_at tagged_text j)
     [0..<Suc (length tagged_text)]"
    by code_simp
  have d: "\<forall>j. j \<le> length tagged_text \<and> j \<noteq> length ''CA: '' \<longrightarrow> no_match_at tagged_text j"
    using c by (simp only: all_positions_list)
  show ?thesis
    using a b c d
      evm_address_classified_sol [of tagged_text "''CA: ''" "'' on ethereum''"]
    by blast
qed

section \<open>Seen-token pruning\<close>

lemma cleanup_loop_filter:
  "cleanup_loop now c es seen =
     filter (\<lambda>e. \<not> (\<exists>t. (fst e, t) \<in> set es \<and> js_gt (js_sub (Fin now) (Fin t)) c)) seen"
proof (induction es arbitrary: seen)
  case Nil
  then show ?case by simp
next
  case (Cons a es)
  obtain k t where a: "a = (k, t)" by (cases a)
  show ?case unfolding a
    by (auto simp add: Cons.IH Map_delete_def intro!: filter_cong)
qed

lemma cleanup_loop_distinct:
  assumes "distinct (map fst es)"
  shows "cleanup_loop now c es es = filter (\<lambda>e. \<not> js_gt (js_sub (Fin now) (Fin (snd e))) c) es"
proof -
  have "(\<exists>t. (fst e, t) \<in> set es \<and> js_gt (js_sub (Fin now) (Fin t)) c) \<longleftrightarrow>
      js_gt (js_sub (Fin now) (Fin (snd e))) c" if "e \<in> set es" for e
  proof
    assume "\<exists>t. (fst e, t) \<in> set es \<and> js_gt (js_sub (Fin now) (Fin t)) c"
    then obtain t where t: "(fst e, t) \<in> set es" "js_gt (js_sub (Fin now) (Fin t)) c" by blast
    have "(fst e, snd e) \<in> set es" using that by simp
    then have "t = snd e" using assms t(1) by (meson eq_key_imp_eq_value)
    then show "js_gt (js_sub (Fin now) (Fin (snd e))) c" using t(2) by simp
  next
    assume "js_gt (js_sub (Fin now) (Fin (snd e))) c"
    then show "\<exists>t. (fst e, t) \<in> set es \<and> js_gt (js_sub (Fin now) (Fin t)) c"
      using that by (intro exI [of _ "snd e"]) simp
  qed
  then show ?thesis unfolding cleanup_loop_filter by (intro filter_cong) auto
qed

lemma int_below_threshold:
  assumes "\<bar>n\<bar> \<le> 2 ^ 53"
  shows "- overflow_threshold < (of_int n :: real)" "(of_int n :: real) < overflow_threshold"
proof -
  have "\<bar>of_int n :: real\<bar> = of_int \<bar>n\<bar>" by simp
  also have "\<dots> \<le> of_int (2 ^ 53)" using assms by (simp only: of_int_le_iff)
  also have "\<dots> = 2 ^ 53" by simp
  finally have "\<bar>of_int n :: real\<bar> < overflow_threshold" using big_bound by simp
  then show "- overflow_threshold < (of_int n :: real)" "(of_int n :: real) < overflow_threshold"
    by simp_all
qed

lemma fl_between_ints:
  assumes "of_int m \<le> x" "x \<le> of_int n" "\<bar>m\<bar> \<le> 2 ^ 53" "\<bar>n\<bar> \<le> 2 ^ 53"
  shows "in_range (of_int m) (of_int n) (fl x)"
  using fl_in_range [OF assms(1,2) rne_int [OF assms(3)] rne_int [OF assms(4)]
      int_below_threshold(1) [OF assms(3)] int_below_threshold(2) [OF assms(4)]] .

lemma cooldown_bounds:
  assumes h: "\<bar>val (alert_cooldown_hours config)\<bar> \<le> 1000000000"
  shows "\<exists>c. cooldown_ms config = Fin c \<and>
           of_int \<lfloor>val (alert_cooldown_hours config) * 60\<rfloor> * 60000 \<le> val c \<and>
           val c \<le> of_int \<lceil>val (alert_cooldown_hours config) * 60\<rceil> * 60000"
proof -
  define H where "H = val (alert_cooldown_hours config)"
  define m where "m = \<lfloor>H * 60\<rfloor>"
  define n where "n = \<lceil>H * 60\<rceil>"
  have H: "- 1000000000 \<le> H" "H \<le> 1000000000" using h unfolding H_def by simp_all
  have mn: "of_int m \<le> H * 60" "H * 60 \<le> of_int n" unfolding m_def n_def by simp_all
  have "- 60000000000 \<le> H * 60" "H * 60 \<le> 60000000000" using H by simp_all
  then have "- 60000000000 \<le> m" "m \<le> 60000000000" "- 60000000000 \<le> n" "n \<le> 60000000000"
    unfolding m_def n_def by (simp_all add: le_floor_iff floor_le_iff ceiling_le_iff le_ceiling_iff)
  then have b: "\<bar>m\<bar> \<le> 2 ^ 53" "\<bar>n\<bar> \<le> 2 ^ 53" "\<bar>m * 60\<bar> \<le> 2 ^ 53" "\<bar>n * 60\<bar> \<le> 2 ^ 53"
    "\<bar>m * 60000\<bar> \<le> 2 ^ 53" "\<bar>n * 60000\<bar> \<le> 2 ^ 53"
    by simp_all
  obtain d1 where d1: "fl (H * 60) = Fin d1" "of_int m \<le> val d1" "val d1 \<le> of_int n"
    using fl_between_ints [OF mn b(1,2)] by (rule in_rangeE)
  have "of_int (m * 60) \<le> val d1 * 60" "val d1 * 60 \<le> of_int (n * 60)"
    using d1(2,3) by simp_all
  then obtain d2 where d2: "fl (val d1 * 60) = Fin d2" "of_int (m * 60) \<le> val d2"
    "val d2 \<le> of_int (n * 60)"
    using fl_between_ints [OF _ _ b(3,4)] by (meson in_rangeE)
  have "of_int (m * 60000) \<le> val d2 * 1000" "val d2 * 1000 \<le> of_int (n * 60000)"
    using d2(2,3) by simp_all
  then obtain d3 where d3: "fl (val d2 * 1000) = Fin d3" "of_int (m * 60000) \<le> val d3"
    "val d3 \<le> of_int (n * 60000)"
    using fl_between_ints [OF _ _ b(5,6)] by (meson in_rangeE)
  have s1: "js_mul (Fin (alert_cooldown_hours config)) (js 60) = Fin d1"
    using d1(1) by (simp add: js_numeral H_def)
  have s2: "js_mul (Fin d1) (js 60) = Fin d2" using d2(1) by (simp add: js_numeral)
  have s3: "js_mul (Fin d2) (js 1000) = Fin d3" using d3(1) by (simp add: js_numeral)
  have "cooldown_ms config = Fin d3" by (simp only: cooldown_ms_def s1 s2 s3)
  moreover have "of_int m * 60000 \<le> val d3" "val d3 \<le> of_int n * 60000"
    using d3(2,3) by simp_all
  ultimately show ?thesis unfolding m_def n_def H_def by blast
qed

lemma past_cooldown_expired:
  assumes h: "\<bar>val (alert_cooldown_hours config)\<bar> \<le> 1000000000"
    and age: "(val (alert_cooldown_hours config) + 1) * 3600000 \<le> val now - val stamp"
  shows "expired config now stamp"
proof -
  define H where "H = val (alert_cooldown_hours config)"
  define n where "n = \<lceil>H * 60\<rceil>"
  obtain c where c: "cooldown_ms config = Fin c" "val c \<le> of_int n * 60000"
    using cooldown_bounds [OF h] unfolding n_def H_def by blast
  have H: "- 1000000000 \<le> H" "H \<le> 1000000000" using h unfolding H_def by simp_all
  have n: "of_int n < H * 60 + 1" unfolding n_def by linarith
  have "- 60000000001 \<le> n" "n \<le> 60000000001" using H unfolding n_def
    by (simp_all add: ceiling_le_iff le_ceiling_iff)
  then have b: "\<bar>n * 60000 + 3540000\<bar> \<le> 2 ^ 53" by simp
  have low: "of_int (n * 60000 + 3540000) \<le> val now - val stamp"
    using age n unfolding H_def [symmetric] by simp
  have "at_least (of_int (n * 60000 + 3540000)) (fl (val now - val stamp))"
    using fl_at_least [OF low rne_int [OF b] int_below_threshold(1) [OF b]] .
  then have "js_gt (fl (val now - val stamp)) (Fin c)"
    using c(2) by (cases "fl (val now - val stamp)") (simp_all add: at_least_def)
  then show ?thesis by (simp add: expired_def c(1))
qed

lemma within_cooldown_not_expired:
  assumes h: "\<bar>val (alert_cooldown_hours config)\<bar> \<le> 1000000000"
    and age: "val now - val stamp \<le> (val (alert_cooldown_hours config) - 1) * 3600000"
  shows "\<not> expired config now stamp"
proof -
  define H where "H = val (alert_cooldown_hours config)"
  define m where "m = \<lfloor>H * 60\<rfloor>"
  obtain c where c: "cooldown_ms config = Fin c" "of_int m * 60000 \<le> val c"
    using cooldown_bounds [OF h] unfolding m_def H_def by blast
  have H: "- 1000000000 \<le> H" "H \<le> 1000000000" using h unfolding H_def by simp_all
  have m: "H * 60 - 1 < of_int m" unfolding m_def by linarith
  have "- 60000000001 \<le> m" "m \<le> 60000000001" using H unfolding m_def
    by (simp_all add: le_floor_iff floor_le_iff)
  then have b: "\<bar>m * 60000 - 3540000\<bar> \<le> 2 ^ 53" by simp
  have up: "val now - val stamp \<le> of_int (m * 60000 - 3540000)"
    using age m unfolding H_def [symmetric] by simp
  have r: "rne (val now - val stamp) \<le> of_int (m * 60000 - 3540000)"
    using rne_le_fix [OF up rne_int [OF b]] .
  have "\<not> js_gt (fl (val now - val stamp)) (Fin c)"
  proof (cases "val now - val stamp" rule: fl_cases)
    case pos
    then have "overflow_threshold \<le> of_int (m * 60000 - 3540000)" using r by simp
    then show ?thesis using int_below_threshold(2) [OF b] by simp
  next
    case neg
    then show ?thesis by simp
  next
    case (fin d)
    then show ?thesis using r c(2) by simp
  qed
  then show ?thesis by (simp add: expired_def c(1))
qed

text \<open>
  Claim C9, as amended. After loading, an entry of the file is gone from the map exactly
  when its age as double arithmetic computes it, \<open>now - timestamp\<close>, exceeds the cooldown
  as \<open>init\<close> computes it, \<open>alert_cooldown_hours * 60 * 60 * 1000\<close>; every other entry is
  still there with its timestamp. For a cooldown of at most \<open>10^9\<close> hours in magnitude, an
  entry whose age is at least cooldown + 1 hours is removed and one whose age is at most
  cooldown - 1 hours is kept.
\<close>

theorem seen_tokens_pruned:
  assumes "distinct (map fst entries)"
  shows "(\<forall>e \<in> set entries.
           (expired config now (snd e) \<longrightarrow>
              map_of (load_seen_tokens config now (Some entries)) (fst e) = None) \<and>
           (\<not> expired config now (snd e) \<longrightarrow>
              map_of (load_seen_tokens config now (Some entries)) (fst e) = Some (snd e))) \<and>
         (\<forall>key stamp.
            \<bar>val (alert_cooldown_hours config)\<bar> \<le> 1000000000 \<and>
            (key, stamp) \<in> set entries \<and>
            (val (alert_cooldown_hours config) + 1) * 3600000 \<le> val now - val stamp \<longrightarrow>
              map_of (load_seen_tokens config now (Some entries)) key = None) \<and>
         (\<forall>key stamp.
            \<bar>val (alert_cooldown_hours config)\<bar> \<le> 1000000000 \<and>
            (key, stamp) \<in> set entries \<and>
            val now - val stamp \<le> (val (alert_cooldown_hours config) - 1) * 3600000 \<longrightarrow>
              map_of (load_seen_tokens config now (Some entries)) key = Some stamp)"
proof -
  define seen where "seen = load_seen_tokens config now (Some entries)"
  have seen: "seen = filter (\<lambda>e. \<not> expired config now (snd e)) entries"
    by (simp add: seen_def load_seen_tokens_def Let_def cleanup_loop_distinct [OF assms]
        expired_def cooldown_ms_def)
  have d: "distinct (map fst seen)" unfolding seen using assms by (simp add: distinct_map_filter)
  have gone: "map_of seen (fst e) = None" if "e \<in> set entries" "expired config now (snd e)" for e
  proof -
    have "fst e \<notin> fst ` set seen"
    proof
      assume "fst e \<in> fst ` set seen"
      then obtain e' where e': "e' \<in> set entries" "\<not> expired config now (snd e')" "fst e' = fst e"
        unfolding seen by auto
      have "(fst e, snd e) \<in> set entries" "(fst e, snd e') \<in> set entries"
        using that(1) e'(1) e'(3) by (simp, metis prod.collapse)
      then have "snd e = snd e'" using assms by (meson eq_key_imp_eq_value)
      then show False using that(2) e'(2) by simp
    qed
    then show ?thesis by (simp add: map_of_eq_None_iff)
  qed
  have kept: "map_of seen (fst e) = Some (snd e)"
    if "e \<in> set entries" "\<not> expired config now (snd e)" for e
  proof -
    have "(fst e, snd e) \<in> set seen" unfolding seen using that by simp
    then show ?thesis using d by simp
  qed
  show ?thesis unfolding seen_def [symmetric]
  proof (intro conjI ballI allI impI)
    fix e assume "e \<in> set entries" "expired config now (snd e)"
    then show "map_of seen (fst e) = None" by (rule gone)
  next
    fix e assume "e \<in> set entries" "\<not> expired config now (snd e)"
    then show "map_of seen (fst e) = Some (snd e)" by (rule kept)
  next
    fix key stamp
    assume h: "\<bar>val (alert_cooldown_hours config)\<bar> \<le> 1000000000 \<and>
      (key, stamp) \<in> set entries \<and>
      (val (alert_cooldown_hours config) + 1) * 3600000 \<le> val now - val stamp"
    then have "expired config now stamp" using past_cooldown_expired by blast
    then show "map_of seen key = None" using gone [of "(key, stamp)"] h by simp
  next
    fix key stamp
    assume h: "\<bar>val (alert_cooldown_hours config)\<bar> \<le> 1000000000 \<and>
      (key, stamp) \<in> set entries \<and>
      val now - val stamp \<le> (val (alert_cooldown_hours config) - 1) * 3600000"
    then have "\<not> expired config now stamp" using within_cooldown_not_expired by blast
    then show "map_of seen key = Some stamp" using kept [of "(key, stamp)"] h by simp
  qed
qed

theorem seen_tokens_pruned_witness:
  "distinct (map fst sample_seen) \<and>
   \<bar>val (alert_cooldown_hours default_hunter_config)\<bar> \<le> 1000000000 \<and>
   (''old_SOL'', dbl (1700000000000 - 25 * 3600000)) \<in> set sample_seen \<and>
   (val (alert_cooldown_hours default_hunter_config) + 1) * 3600000
     \<le> val now0 - val (dbl (1700000000000 - 25 * 3600000)) \<and>
   expired default_hunter_config now0 (dbl (1700000000000 - 25 * 3600000)) \<and>
   map_of (load_seen_tokens default_hunter_config now0 (Some sample_seen)) ''old_SOL'' = None \<and>
   (''new_ETH'', dbl (1700000000000 - 23 * 3600000)) \<in> set sample_seen \<and>
   val now0 - val (dbl (1700000000000 - 23 * 3600000))
     \<le> (val (alert_cooldown_hours default_hunter_config) - 1) * 3600000 \<and>
   \<not> expired default_hunter_config now0 (dbl (1700000000000 - 23 * 3600000)) \<and>
   map_of (load_seen_tokens default_hunter_config now0 (Some sample_seen)) ''new_ETH'' =
     Some (dbl (1700000000000 - 23 * 3600000))"
proof -
  have d: "distinct (map fst sample_seen)" by (simp add: sample_seen_def)
  have h: "\<bar>val (alert_cooldown_hours default_hunter_config)\<bar> \<le> 1000000000"
    by (simp add: default_hunter_config_def js_numeral)
  have o: "(''old_SOL'', dbl (1700000000000 - 25 * 3600000)) \<in> set sample_seen"
    by (simp add: sample_seen_def)
  have n: "(''new_ETH'', dbl (1700000000000 - 23 * 3600000)) \<in> set sample_seen"
    by (simp add: sample_seen_def)
  have ao: "(val (alert_cooldown_hours default_hunter_config) + 1) * 3600000
      \<le> val now0 - val (dbl (1700000000000 - 25 * 3600000))"
    by (simp add: now0_def default_hunter_config_def js_numeral)
  have an: "val now0 - val (dbl (1700000000000 - 23 * 3600000))
      \<le> (val (alert_cooldown_hours default_hunter_config) - 1) * 3600000"
    by (simp add: now0_def default_hunter_config_def js_numeral)
  note t = seen_tokens_pruned [OF d, where now = now0 and config = default_hunter_config]
  have r1: "map_of (load_seen_tokens default_hunter_config now0 (Some sample_seen)) ''old_SOL''
      = None"
    using t h o ao by blast
  have r2: "map_of (load_seen_tokens default_hunter_config now0 (Some sample_seen)) ''new_ETH''
      = Some (dbl (1700000000000 - 23 * 3600000))"
    using t h n an by blast
  have e1: "expired default_hunter_config now0 (dbl (1700000000000 - 25 * 3600000))"
  proof (rule ccontr)
    assume "\<not> expired default_hunter_config now0 (dbl (1700000000000 - 25 * 3600000))"
    then have "map_of (load_seen_tokens default_hunter_config now0 (Some sample_seen))
        (fst (''old_SOL'', dbl (1700000000000 - 25 * 3600000)))
      = Some (snd (''old_SOL'', dbl (1700000000000 - 25 * 3600000)))"
      using t o by (metis snd_conv)
    then show False using r1 by simp
  qed
  have e2: "\<not> expired default_hunter_config now0 (dbl (1700000000000 - 23 * 3600000))"
  proof
    assume "expired default_hunter_config now0 (dbl (1700000000000 - 23 * 3600000))"
    then have "map_of (load_seen_tokens default_hunter_config now0 (Some sample_seen))
        (fst (''new_ETH'', dbl (1700000000000 - 23 * 3600000))) = None"
      using t n by (metis snd_conv)
    then show False using r2 by simp
  qed
  show ?thesis using d h o ao e1 r1 n an e2 r2 by (intro conjI)
qed

lemma boundary_not_expired:
  "\<not> expired fractional_config now0 (dbl (1700000000000 - 1080000))"
  apply (simp add: expired_def cooldown_ms_def fractional_config_def default_hunter_config_def
      now0_def)
  apply (simp add: eval_num)
  done

text \<open>
  The claim as stated, about the age and the cooldown themselves, fails at the threshold.
  With a cooldown of 0.3 hours the configured double is below 0.3, so an entry aged
  1080000 milliseconds is older than the cooldown; the computed threshold is 1080000
  exactly, and the entry is kept.
\<close>

theorem seen_tokens_boundary_counterexample:
  "val now0 - val (dbl (1700000000000 - 1080000)) = 1080000 \<and>
   val (alert_cooldown_hours fractional_config) * 3600000 < 1080000 \<and>
   map_of (load_seen_tokens fractional_config now0 (Some boundary_seen)) ''edge_SOL'' =
     Some (dbl (1700000000000 - 1080000))"
proof -
  have a: "val now0 - val (dbl (1700000000000 - 1080000)) = 1080000"
    by (simp add: now0_def js_numeral)
  have b: "val (alert_cooldown_hours fractional_config) * 3600000 < 1080000"
    apply (simp add: fractional_config_def default_hunter_config_def)
    apply (simp add: eval_num)
    done
  have c: "map_of (load_seen_tokens fractional_config now0 (Some boundary_seen)) ''edge_SOL'' =
     Some (dbl (1700000000000 - 1080000))"
    using boundary_not_expired
    by (simp add: load_seen_tokens_def boundary_seen_def Let_def expired_def cooldown_ms_def)
  show ?thesis using a b c by (intro conjI)
qed

end
